theory Spec2Isabelle
  imports Complex_Main "HOL-Library.Multiset" "HOL-Library.AList"
begin

section \<open>Tables\<close>

text \<open>
  The script \<^verbatim>\<open>scripts/permute_tlids.py\<close> works on pandas tables whose columns are all
  numeric (identifiers read from CSV and the variables A to E). A cell is a number or the
  missing value NaN; float64 numbers are idealised as exact rationals. A table has a row
  index and an ordered list of named columns; in a well-formed table the names are distinct
  and every column is as long as the index.
\<close>

datatype cell = NaN | Num rat

type_synonym label = string

datatype error = KeyError "label list" | ZeroDivisionError | ValueError

record frame =
  index :: "cell list"
  columns :: "(label \<times> cell list) list"

definition wf_frame :: "frame \<Rightarrow> bool" where
  "wf_frame f \<longleftrightarrow>
     distinct (map fst (columns f)) \<and>
     list_all (\<lambda>cv. length (snd cv) = length (index f)) (columns f)"

text \<open>\<^verbatim>\<open>df.shape[0]\<close>\<close>

definition nrows :: "frame \<Rightarrow> nat" where
  "nrows f = length (index f)"

text \<open>\<^verbatim>\<open>df[c]\<close> for one label: KeyError when the column is absent.\<close>

definition column :: "frame \<Rightarrow> label \<Rightarrow> error + cell list" where
  "column f c = (case map_of (columns f) c of None \<Rightarrow> Inl (KeyError [c]) | Some vs \<Rightarrow> Inr vs)"

text \<open>\<^verbatim>\<open>df[[c1, ..., cn]]\<close>: a new table with these columns in this order; KeyError
  naming the absent labels.\<close>

definition select :: "frame \<Rightarrow> label list \<Rightarrow> error + frame" where
  "select f cs =
     (let missing = filter (\<lambda>c. map_of (columns f) c = None) cs
      in if missing \<noteq> [] then Inl (KeyError missing)
         else Inr (f\<lparr>columns := map (\<lambda>c. (c, the (map_of (columns f) c))) cs\<rparr>))"

text \<open>\<^verbatim>\<open>df[c] = values\<close>: an existing column is replaced where it stands, a new one is
  appended.\<close>

definition set_column :: "frame \<Rightarrow> label \<Rightarrow> cell list \<Rightarrow> frame" where
  "set_column f c vs = f\<lparr>columns := AList.update c vs (columns f)\<rparr>"

text \<open>\<^verbatim>\<open>df.drop(cs, axis=1)\<close>: KeyError when a label is absent.\<close>

definition drop_columns :: "frame \<Rightarrow> label list \<Rightarrow> error + frame" where
  "drop_columns f cs =
     (let missing = filter (\<lambda>c. map_of (columns f) c = None) cs
      in if missing \<noteq> [] then Inl (KeyError missing)
         else Inr (f\<lparr>columns := filter (\<lambda>cv. fst cv \<notin> set cs) (columns f)\<rparr>))"

subsection \<open>Numbers\<close>

fun cell_abs :: "cell \<Rightarrow> cell" where
  "cell_abs NaN = NaN"
| "cell_abs (Num x) = Num \<bar>x\<bar>"

text \<open>\<^verbatim>\<open>>\<close> on cells: a comparison with NaN is false.\<close>

fun cell_gt :: "cell \<Rightarrow> cell \<Rightarrow> bool" where
  "cell_gt (Num x) (Num y) = (y < x)"
| "cell_gt _ _ = False"

fun nums :: "cell list \<Rightarrow> rat list" where
  "nums [] = []"
| "nums (NaN # cs) = nums cs"
| "nums (Num x # cs) = x # nums cs"

text \<open>\<^verbatim>\<open>mean\<close> with pandas' default \<^verbatim>\<open>skipna=True\<close>: the mean of the numbers present,
  NaN when there is none.\<close>

definition nanmean :: "cell list \<Rightarrow> cell" where
  "nanmean cs =
     (let xs = nums cs
      in if xs = [] then NaN else Num (sum_list xs / of_nat (length xs)))"

text \<open>\<^verbatim>\<open>df.abs()\<close>\<close>

definition frame_abs :: "frame \<Rightarrow> frame" where
  "frame_abs f = f\<lparr>columns := map (\<lambda>cv. (fst cv, map cell_abs (snd cv))) (columns f)\<rparr>"

text \<open>\<^verbatim>\<open>df.mean(axis=1)\<close>: one mean per row, across the columns.\<close>

definition row_means :: "frame \<Rightarrow> cell list" where
  "row_means f = map (\<lambda>r. nanmean (map (\<lambda>cv. snd cv ! r) (columns f))) [0..<nrows f]"

subsection \<open>Grouping\<close>

text \<open>
  \<^verbatim>\<open>groupby\<close> sorts the distinct keys and drops missing ones (its defaults
  \<^verbatim>\<open>sort=True\<close>, \<^verbatim>\<open>dropna=True\<close>).
\<close>

definition group_keys :: "cell list \<Rightarrow> cell list" where
  "group_keys ks = map Num (sort (remdups (nums ks)))"

text \<open>The values of the rows whose key is \<open>k\<close>, in row order.\<close>

definition group_vals :: "cell \<Rightarrow> cell list \<Rightarrow> cell list \<Rightarrow> cell list" where
  "group_vals k ks vs = map snd (filter (\<lambda>kv. fst kv = k) (zip ks vs))"

text \<open>\<^verbatim>\<open>df.groupby([key]).mean()\<close>: indexed by the sorted distinct keys, one column of
  group means for every other column.\<close>

definition groupby_mean :: "frame \<Rightarrow> label \<Rightarrow> error + frame" where
  "groupby_mean f key =
     (case column f key of
        Inl e \<Rightarrow> Inl e
      | Inr ks \<Rightarrow>
          Inr \<lparr>index = group_keys ks,
               columns = map (\<lambda>cv. (fst cv, map (\<lambda>k. nanmean (group_vals k ks (snd cv))) (group_keys ks)))
                             (filter (\<lambda>cv. fst cv \<noteq> key) (columns f))\<rparr>)"

section \<open>Random generators\<close>

text \<open>
  numpy's global generator is not part of the repository. Its state is taken as the
  sequence of raw draws it will deliver (zeros once the list is used up), so that every
  theorem holds for whatever the generator delivers. \<^verbatim>\<open>random_interval\<close> is numpy's
  bounded draw from \<open>[0, max]\<close>; \<^verbatim>\<open>shuffle\<close> is its Fisher-Yates loop
  \<^verbatim>\<open>for i in reversed(range(1, n)): j = random_interval(i); swap x[i], x[j]\<close>, and
  \<^verbatim>\<open>permutation\<close> shuffles a copy of its argument.
\<close>

type_synonym rng = "nat list"

fun random_interval :: "rng \<Rightarrow> nat \<Rightarrow> nat \<times> rng" where
  "random_interval [] m = (0, [])"
| "random_interval (r # rs) m = (r mod (m + 1), rs)"

fun shuffle :: "nat \<Rightarrow> 'a list \<Rightarrow> rng \<Rightarrow> 'a list \<times> rng" where
  "shuffle 0 xs g = (xs, g)"
| "shuffle (Suc i) xs g =
     (case random_interval g (Suc i) of
        (j, g') \<Rightarrow> shuffle i (xs[Suc i := xs ! j, j := xs ! Suc i]) g')"

definition permutation :: "'a list \<Rightarrow> rng \<Rightarrow> 'a list \<times> rng" where
  "permutation xs g = shuffle (length xs - 1) xs g"

text \<open>
  \<^verbatim>\<open>groupby(by)[col].transform(func)\<close> calls \<open>func\<close> once on every group, in key order,
  and writes the results back in the original row order. A row whose key is missing
  belongs to no group and gets NaN.
\<close>

fun transform_groups :: "cell list \<Rightarrow> cell list \<Rightarrow> cell list \<Rightarrow> rng \<Rightarrow> (cell \<times> cell list) list \<times> rng" where
  "transform_groups [] ks vs g = ([], g)"
| "transform_groups (k # rest) ks vs g =
     (case permutation (group_vals k ks vs) g of
        (p, g') \<Rightarrow>
          (case transform_groups rest ks vs g' of
             (res, g'') \<Rightarrow> ((k, p) # res, g'')))"

fun write_back :: "(cell \<times> cell list) list \<Rightarrow> cell list \<Rightarrow> cell list" where
  "write_back res [] = []"
| "write_back res (k # ks) =
     (case map_of res k of
        Some (v # vs) \<Rightarrow> v # write_back (AList.update k vs res) ks
      | _ \<Rightarrow> NaN # write_back res ks)"

definition transform_permutation :: "cell list \<Rightarrow> cell list \<Rightarrow> rng \<Rightarrow> cell list \<times> rng" where
  "transform_permutation ks vs g =
     (case transform_groups (group_keys ks) ks vs g of
        (res, g') \<Rightarrow> (write_back res ks, g'))"

section \<open>The interpreter state\<close>

text \<open>
  The household table is an object shared with the caller: \<open>heap\<close> maps an object
  reference to the table's content. \<open>py_random\<close> is the state of Python's \<^verbatim>\<open>random\<close>
  module (the seed it was last given), \<open>np_random\<close> the state of numpy's generator.
\<close>

record world =
  heap :: "nat \<Rightarrow> frame"
  py_random :: int
  np_random :: rng

subsection \<open>\<^verbatim>\<open>str\<close> on integers\<close>

fun str_nat :: "nat \<Rightarrow> string" where
  "str_nat n =
     (if n < 10 then [''0123456789'' ! n]
      else str_nat (n div 10) @ [''0123456789'' ! (n mod 10)])"

declare str_nat.simps [simp del]

definition str :: "int \<Rightarrow> string" where
  "str i = (if i < 0 then CHR ''-'' # str_nat (nat (- i)) else str_nat (nat i))"

section \<open>permute_houses\<close>

text \<open>
  Line 26 seeds Python's \<^verbatim>\<open>random\<close> module; line 27 permutes with numpy's generator,
  assigns the new column to the table itself, and line 28 returns the same object.
\<close>

definition permute_houses :: "nat \<Rightarrow> int \<Rightarrow> world \<Rightarrow> (error + nat) \<times> world" where
  "permute_houses dem_data seed w =
     (let w1 = w\<lparr>py_random := seed\<rparr>
      in case column (heap w1 dem_data) ''BLKID'' of
           Inl e \<Rightarrow> (Inl e, w1)
         | Inr blk \<Rightarrow>
             (case column (heap w1 dem_data) ''TLID'' of
                Inl e \<Rightarrow> (Inl e, w1)
              | Inr tlid \<Rightarrow>
                  (case transform_permutation blk tlid (np_random w1) of
                     (permuted, g) \<Rightarrow>
                       (Inr dem_data,
                        w1\<lparr>heap := (heap w1)(dem_data :=
                              set_column (heap w1 dem_data) (''TLID_permuted_'' @ str seed) permuted),
                           np_random := g\<rparr>))))"

section \<open>average_pvals\<close>

definition vars :: "label list" where
  "vars = [''A'', ''B'', ''C'', ''D'', ''E'']"

text \<open>\<^verbatim>\<open>range(n)\<close>\<close>

definition py_range :: "int \<Rightarrow> nat list" where
  "py_range n = [0..<nat n]"

text \<open>Line 52: \<^verbatim>\<open>[(col+'_p_'+str(i)) for i in range(iterations)]\<close>\<close>

definition p_val_names :: "label \<Rightarrow> int \<Rightarrow> label list" where
  "p_val_names col iterations = map (\<lambda>i. col @ ''_p_'' @ str (int i)) (py_range iterations)"

text \<open>
  \<open>pval_df\<close> is changed in place and returned. The model returns the exception raised, if
  any, and the content of the object when the call ends.
  \<open>average_col\<close> is the body of the loop (lines 52 to 56) for one variable;
  \<^verbatim>\<open>astype(float)\<close> leaves a numeric cell as it is.
\<close>

definition average_col :: "label \<Rightarrow> int \<Rightarrow> frame \<Rightarrow> error option \<times> frame" where
  "average_col col iterations pval_df =
     (let p_val_cols = p_val_names col iterations
      in case select pval_df p_val_cols of
           Inl e \<Rightarrow> (Some e, pval_df)
         | Inr these_p_vals \<Rightarrow>
             (let avg_col_name = col @ ''_avg_p'';
                  pval_df1 = set_column pval_df avg_col_name (row_means these_p_vals)
              in case drop_columns pval_df1 p_val_cols of
                   Inl e \<Rightarrow> (Some e, pval_df1)
                 | Inr pval_df2 \<Rightarrow> (None, pval_df2)))"

fun average_loop :: "label list \<Rightarrow> int \<Rightarrow> frame \<Rightarrow> error option \<times> frame" where
  "average_loop [] iterations pval_df = (None, pval_df)"
| "average_loop (col # cols) iterations pval_df =
     (case average_col col iterations pval_df of
        (Some e, pval_df1) \<Rightarrow> (Some e, pval_df1)
      | (None, pval_df1) \<Rightarrow> average_loop cols iterations pval_df1)"

definition average_pvals :: "frame \<Rightarrow> int \<Rightarrow> error option \<times> frame" where
  "average_pvals pval_df iterations = average_loop vars iterations pval_df"

section \<open>find_p_vals\<close>

text \<open>
  Line 93 for one variable: the two columns of absolute means are compared row by row
  (pandas compares two Series only when their indexes are equal, and raises ValueError
  otherwise), the rows of \<open>synth_aggs\<close> where the comparison holds are counted, and the
  count is divided by the number of rows of \<open>synth_aggs\<close>, two Python integers.
\<close>

definition p_value :: "frame \<Rightarrow> frame \<Rightarrow> label \<Rightarrow> error + cell" where
  "p_value synth_aggs aggs col =
     (case column (frame_abs synth_aggs) col of
        Inl e \<Rightarrow> Inl e
      | Inr sv \<Rightarrow>
          (case column (frame_abs aggs) col of
             Inl e \<Rightarrow> Inl e
           | Inr av \<Rightarrow>
               if index synth_aggs \<noteq> index aggs then Inl ValueError
               else
                 (let hits = length (filter (\<lambda>sa. cell_gt (fst sa) (snd sa)) (zip sv av))
                  in if nrows synth_aggs = 0 then Inl ZeroDivisionError
                     else Inr (Num (of_nat hits / of_nat (nrows synth_aggs))))))"

text \<open>Lines 92 and 93: the quotient is written to every row of the new column.\<close>

fun p_val_cols :: "label list \<Rightarrow> nat \<Rightarrow> frame \<Rightarrow> frame \<Rightarrow> error + frame" where
  "p_val_cols [] i synth_aggs aggs = Inr aggs"
| "p_val_cols (col # cols) i synth_aggs aggs =
     (case p_value synth_aggs aggs col of
        Inl e \<Rightarrow> Inl e
      | Inr p \<Rightarrow>
          p_val_cols cols i synth_aggs
            (set_column aggs (col @ ''_p_'' @ str (int i)) (replicate (nrows aggs) p)))"

text \<open>
  Lines 87 and 91: \<^verbatim>\<open>data[[key, 'A', 'B', 'C', 'D', 'E']].groupby([key]).mean()\<close>, with
  \<open>key\<close> the true segment key on line 87 and the permuted one on line 91.
\<close>

definition aggregate :: "frame \<Rightarrow> label \<Rightarrow> error + frame" where
  "aggregate data key =
     (case select data (key # vars) of
        Inl e \<Rightarrow> Inl e
      | Inr sel \<Rightarrow> groupby_mean sel key)"

text \<open>
  Lines 89 to 93. \<open>aggs\<close> is created inside \<^verbatim>\<open>find_p_vals\<close> and no one else holds it, so
  it is carried as a value; \<open>data\<close> is the caller's object and lives in the heap.
\<close>

fun p_val_loop :: "nat list \<Rightarrow> nat \<Rightarrow> frame \<Rightarrow> world \<Rightarrow> (error + frame) \<times> world" where
  "p_val_loop [] data aggs w = (Inr aggs, w)"
| "p_val_loop (i # rest) data aggs w =
     (case permute_houses data (int i) w of
        (Inl e, w1) \<Rightarrow> (Inl e, w1)
      | (Inr shuffled_data, w1) \<Rightarrow>
          (case aggregate (heap w1 shuffled_data) (''TLID_permuted_'' @ str (int i)) of
             Inl e \<Rightarrow> (Inl e, w1)
           | Inr synth_aggs \<Rightarrow>
               (case p_val_cols vars i synth_aggs aggs of
                  Inl e \<Rightarrow> (Inl e, w1)
                | Inr aggs1 \<Rightarrow> p_val_loop rest data aggs1 w1)))"

text \<open>Lines 87 to 93: the true aggregate and the per-iteration p-value columns.\<close>

definition compute_pvalues :: "nat \<Rightarrow> int \<Rightarrow> world \<Rightarrow> (error + frame) \<times> world" where
  "compute_pvalues data iterations w =
     (case aggregate (heap w data) ''TLID'' of
        Inl e \<Rightarrow> (Inl e, w)
      | Inr aggs \<Rightarrow> p_val_loop (py_range iterations) data aggs w)"

text \<open>Lines 95 and 96.\<close>

definition find_p_vals :: "nat \<Rightarrow> int \<Rightarrow> world \<Rightarrow> (error + frame) \<times> world" where
  "find_p_vals data iterations w =
     (case compute_pvalues data iterations w of
        (Inl e, w1) \<Rightarrow> (Inl e, w1)
      | (Inr aggs, w1) \<Rightarrow>
          (case average_pvals aggs iterations of
             (Some e, aggs_avg) \<Rightarrow> (Inl e, w1)
           | (None, aggs_avg) \<Rightarrow> (Inr aggs_avg, w1)))"

section \<open>A small household table\<close>

text \<open>
  Three households in two block groups, used to run the definitions: households 101 and
  102 share block 1, household 103 is alone in block 2.
\<close>

definition example_table :: frame where
  "example_table =
     \<lparr>index = [Num 0, Num 1, Num 2],
      columns = [(''MAFID'', [Num 101, Num 102, Num 103]),
                 (''BLKID'', [Num 1, Num 1, Num 2]),
                 (''TLID'', [Num 1, Num 2, Num 3]),
                 (''A'', [Num 1, Num 3, Num 2]),
                 (''B'', [Num 0, Num 0, Num 0]),
                 (''C'', [Num (-1), Num 1, Num 5]),
                 (''D'', [Num (1/2), Num (1/4), Num 0]),
                 (''E'', [Num 2, Num 2, Num 2])]\<rparr>"

definition example_world :: "rng \<Rightarrow> world" where
  "example_world g = \<lparr>heap = (\<lambda>r. example_table), py_random = 0, np_random = g\<rparr>"

text \<open>The same schema with no household.\<close>

definition empty_table :: frame where
  "empty_table =
     \<lparr>index = [],
      columns = [(''MAFID'', []), (''BLKID'', []), (''TLID'', []),
                 (''A'', []), (''B'', []), (''C'', []), (''D'', []), (''E'', [])]\<rparr>"

definition empty_world :: "rng \<Rightarrow> world" where
  "empty_world g = \<lparr>heap = (\<lambda>r. empty_table), py_random = 0, np_random = g\<rparr>"

text \<open>Two households whose block key is missing.\<close>

definition missing_block_table :: frame where
  "missing_block_table =
     \<lparr>index = [Num 0, Num 1],
      columns = [(''MAFID'', [Num 101, Num 102]),
                 (''BLKID'', [NaN, NaN]),
                 (''TLID'', [Num 1, Num 2]),
                 (''A'', [Num 1, Num 3]),
                 (''B'', [Num 0, Num 0]),
                 (''C'', [Num (-1), Num 1]),
                 (''D'', [Num (1/2), Num (1/4)]),
                 (''E'', [Num 2, Num 2])]\<rparr>"

definition missing_block_world :: "rng \<Rightarrow> world" where
  "missing_block_world g = \<lparr>heap = (\<lambda>r. missing_block_table), py_random = 0, np_random = g\<rparr>"

text \<open>
  A p-value table for two iterations over two segments, and the same table without the
  column C_p_1.
\<close>

definition example_pvals :: frame where
  "example_pvals =
     \<lparr>index = [Num 1, Num 2],
      columns = [(''A'', [Num 1, Num 3]), (''B'', [Num 0, Num 0]), (''C'', [Num (-1), Num 1]),
                 (''D'', [Num (1/2), Num (1/4)]), (''E'', [Num 2, Num 2]),
                 (''A_p_0'', [Num (1/2), Num (1/2)]), (''B_p_0'', [Num 0, Num 0]),
                 (''C_p_0'', [Num 1, Num 1]), (''D_p_0'', [Num (1/2), Num (1/2)]),
                 (''E_p_0'', [Num 0, Num 0]),
                 (''A_p_1'', [Num 0, Num 0]), (''B_p_1'', [Num (1/2), Num (1/2)]),
                 (''C_p_1'', [Num 1, Num 1]), (''D_p_1'', [Num 1, Num 1]),
                 (''E_p_1'', [Num 0, Num 0])]\<rparr>"

definition example_pvals_short :: frame where
  "example_pvals_short =
     example_pvals\<lparr>columns := filter (\<lambda>cv. fst cv \<noteq> ''C_p_1'') (columns example_pvals)\<rparr>"

section \<open>Vocabulary of the statements\<close>

text \<open>The columns of a table under the given names, in that order.\<close>

definition the_columns :: "frame \<Rightarrow> label list \<Rightarrow> cell list list" where
  "the_columns f cs = map (\<lambda>c. the (map_of (columns f) c)) cs"

text \<open>The row-wise mean of a list of columns of \<open>n\<close> rows.\<close>

definition mean_of_columns :: "cell list list \<Rightarrow> nat \<Rightarrow> cell list" where
  "mean_of_columns cols n = map (\<lambda>r. nanmean (map (\<lambda>col. col ! r) cols)) [0..<n]"

text \<open>A p-value: a number between 0 and 1.\<close>

fun unit_interval :: "cell \<Rightarrow> bool" where
  "unit_interval NaN = False"
| "unit_interval (Num x) = (0 \<le> x \<and> x \<le> 1)"

text \<open>
  The number of segments, among the first \<open>n\<close> rows of two aggregates over the same
  index, whose permuted mean \<open>sv ! k\<close> exceeds in absolute value the true mean
  \<open>tv ! k\<close> of the same segment.
\<close>

definition matched_exceedances :: "cell list \<Rightarrow> cell list \<Rightarrow> nat \<Rightarrow> nat" where
  "matched_exceedances sv tv n =
     length (filter (\<lambda>k. cell_gt (cell_abs (sv ! k)) (cell_abs (tv ! k))) [0..<n])"

text \<open>
  The count as the specification words it: the number of permuted-aggregate rows whose
  absolute value exceeds the absolute value of the true aggregate at the segment in row
  \<open>k\<close>, and the p-value it gives.
\<close>

definition global_exceedances :: "cell list \<Rightarrow> cell list \<Rightarrow> nat \<Rightarrow> nat" where
  "global_exceedances sv tv k =
     length (filter (\<lambda>x. cell_gt (cell_abs x) (cell_abs (tv ! k))) sv)"

definition spec_p_value :: "cell list \<Rightarrow> cell list \<Rightarrow> nat \<Rightarrow> cell" where
  "spec_p_value sv tv k = Num (of_nat (global_exceedances sv tv k) / of_nat (length sv))"

text \<open>The arithmetic mean of a non-empty list of numbers.\<close>

definition arithmetic_mean :: "rat list \<Rightarrow> rat" where
  "arithmetic_mean xs = sum_list xs / of_nat (length xs)"

section \<open>Permutations\<close>

lemma random_interval_le: "fst (random_interval g m) \<le> m"
  by (cases g) (simp_all add: less_Suc_eq_le [symmetric])

lemma shuffle_mset: "i < length xs \<Longrightarrow> mset (fst (shuffle i xs g)) = mset xs"
proof (induction i arbitrary: xs g)
  case 0
  then show ?case by simp
next
  case (Suc i)
  obtain j g' where r: "random_interval g (Suc i) = (j, g')" by (cases "random_interval g (Suc i)")
  have "j \<le> Suc i" using random_interval_le [of g "Suc i"] r by simp
  with Suc.prems have j: "j < length xs" by simp
  have "mset (xs[Suc i := xs ! j, j := xs ! Suc i]) = mset xs"
    using mset_swap [OF j Suc.prems] .
  moreover have "i < length (xs[Suc i := xs ! j, j := xs ! Suc i])" using Suc.prems by simp
  ultimately show ?case using Suc.IH [of "xs[Suc i := xs ! j, j := xs ! Suc i]" g'] r by simp
qed

lemma permutation_mset: "mset (fst (permutation xs g)) = mset xs"
  by (cases xs) (simp_all add: permutation_def shuffle_mset)

lemma permutation_length: "length (fst (permutation xs g)) = length xs"
  using permutation_mset [of xs g] by (metis size_mset)

lemma group_vals_Cons:
  "group_vals k (k0 # ks) (v # vs) = (if k0 = k then v # group_vals k ks vs else group_vals k ks vs)"
  by (simp add: group_vals_def)

lemma group_vals_length:
  "length vs = length ks \<Longrightarrow> length (group_vals k ks vs) = length (filter (\<lambda>x. x = k) ks)"
  by (induction ks vs rule: list_induct2') (simp_all add: group_vals_def)

lemma write_back_length: "length (write_back res ks) = length ks"
  by (induction ks arbitrary: res) (simp_all split: option.splits list.splits)

lemma write_back_group:
  "\<forall>k p. map_of res k = Some p \<longrightarrow> length p = length (filter (\<lambda>x. x = k) ks) \<Longrightarrow>
   map_of res k = Some p \<Longrightarrow> group_vals k ks (write_back res ks) = p"
proof (induction ks arbitrary: res p)
  case Nil
  then show ?case by (auto simp add: group_vals_def)
next
  case (Cons k0 ks)
  show ?case
  proof (cases "map_of res k0")
    case None
    then have ne: "k0 \<noteq> k" using Cons.prems(2) by auto
    have "\<forall>k p. map_of res k = Some p \<longrightarrow> length p = length (filter (\<lambda>x. x = k) ks)"
      using Cons.prems(1) None by (metis (mono_tags, lifting) filter.simps(2) option.distinct(1))
    from Cons.IH [OF this Cons.prems(2)] show ?thesis using None ne
      by (simp add: group_vals_Cons)
  next
    case (Some p0)
    then have "length p0 = Suc (length (filter (\<lambda>x. x = k0) ks))" using Cons.prems(1) by simp
    then obtain v vs where p0: "p0 = v # vs" and lvs: "length vs = length (filter (\<lambda>x. x = k0) ks)"
      by (cases p0) auto
    let ?res = "AList.update k0 vs res"
    have inv: "\<forall>k p. map_of ?res k = Some p \<longrightarrow> length p = length (filter (\<lambda>x. x = k) ks)"
      using Cons.prems(1) lvs by (auto simp: update_conv')
    show ?thesis
    proof (cases "k0 = k")
      case True
      then have "map_of ?res k = Some vs" by (simp add: update_conv')
      from Cons.IH [OF inv this] show ?thesis using Some p0 True Cons.prems(2)
        by (simp add: group_vals_Cons)
    next
      case False
      then have "map_of ?res k = Some p" using Cons.prems(2) by (simp add: update_conv')
      from Cons.IH [OF inv this] show ?thesis using Some p0 False
        by (simp add: group_vals_Cons)
    qed
  qed
qed

lemma transform_groups_keys:
  "map fst (fst (transform_groups keys ks vs g)) = keys"
proof (induction keys arbitrary: g)
  case Nil
  then show ?case by simp
next
  case (Cons k0 keys)
  obtain p0 g' where a: "permutation (group_vals k0 ks vs) g = (p0, g')"
    by (cases "permutation (group_vals k0 ks vs) g")
  obtain res g'' where b: "transform_groups keys ks vs g' = (res, g'')"
    by (cases "transform_groups keys ks vs g'")
  show ?case using Cons.IH [of g'] a b by simp
qed

lemma transform_groups_mset:
  "(k, p) \<in> set (fst (transform_groups keys ks vs g)) \<Longrightarrow>
   mset p = mset (group_vals k ks vs)"
proof (induction keys arbitrary: g)
  case Nil
  then show ?case by simp
next
  case (Cons k0 keys)
  obtain p0 g' where a: "permutation (group_vals k0 ks vs) g = (p0, g')"
    by (cases "permutation (group_vals k0 ks vs) g")
  obtain res g'' where b: "transform_groups keys ks vs g' = (res, g'')"
    by (cases "transform_groups keys ks vs g'")
  from Cons.prems a b have "(k, p) = (k0, p0) \<or> (k, p) \<in> set res" by simp
  then show ?case
  proof
    assume "(k, p) = (k0, p0)"
    then show ?thesis using permutation_mset [of "group_vals k0 ks vs" g] a by simp
  next
    assume "(k, p) \<in> set res"
    then show ?thesis using Cons.IH [of g'] b by simp
  qed
qed

lemma transform_permutation_length:
  "length (fst (transform_permutation ks vs g)) = length ks"
  by (simp add: transform_permutation_def write_back_length split: prod.splits)

lemma transform_permutation_group:
  assumes len: "length vs = length ks" and k: "k \<in> set (group_keys ks)"
  shows "mset (group_vals k ks (fst (transform_permutation ks vs g))) = mset (group_vals k ks vs)"
proof -
  obtain res g' where r: "transform_groups (group_keys ks) ks vs g = (res, g')"
    by (cases "transform_groups (group_keys ks) ks vs g")
  have keys: "map fst res = group_keys ks" using transform_groups_keys [of "group_keys ks" ks vs g] r by simp
  have ms: "\<And>k p. (k, p) \<in> set res \<Longrightarrow> mset p = mset (group_vals k ks vs)"
    using transform_groups_mset [of _ _ "group_keys ks" ks vs g] r by simp
  have inv: "\<forall>k p. map_of res k = Some p \<longrightarrow> length p = length (filter (\<lambda>x. x = k) ks)"
  proof (intro allI impI)
    fix k p assume "map_of res k = Some p"
    then have "(k, p) \<in> set res" by (rule map_of_SomeD)
    then have "mset p = mset (group_vals k ks vs)" by (rule ms)
    then have "length p = length (group_vals k ks vs)" by (metis size_mset)
    then show "length p = length (filter (\<lambda>x. x = k) ks)" using group_vals_length [OF len] by simp
  qed
  from k keys have "k \<in> fst ` set res" by (metis set_map)
  then obtain p where p: "map_of res k = Some p" by (metis map_of_eq_None_iff not_Some_eq)
  have "group_vals k ks (write_back res ks) = p" using write_back_group [OF inv p] .
  moreover have "mset p = mset (group_vals k ks vs)" using ms map_of_SomeD [OF p] .
  ultimately show ?thesis using r by (simp add: transform_permutation_def)
qed

lemma nums_mem: "x \<in> set (nums ks) \<longleftrightarrow> Num x \<in> set ks"
  by (induction ks rule: nums.induct) auto

lemma group_keys_mem: "k \<in> set (group_keys ks) \<longleftrightarrow> k \<in> set ks \<and> k \<noteq> NaN"
  by (cases k) (auto simp: group_keys_def nums_mem)

lemma group_vals_nth:
  "length vs = length ks \<Longrightarrow> i < length ks \<Longrightarrow> vs ! i \<in> set (group_vals (ks ! i) ks vs)"
proof -
  assume a: "length vs = length ks" "i < length ks"
  then have "(ks ! i, vs ! i) \<in> set (zip ks vs)" by (metis in_set_zip fst_conv snd_conv)
  then have "(ks ! i, vs ! i) \<in> set (filter (\<lambda>kv. fst kv = ks ! i) (zip ks vs))" by simp
  then show ?thesis unfolding group_vals_def by (metis image_eqI set_map snd_conv)
qed

lemma column_length:
  "wf_frame f \<Longrightarrow> column f c = Inr vs \<Longrightarrow> length vs = length (index f)"
  by (auto simp: wf_frame_def column_def list_all_iff split: option.splits dest!: map_of_SomeD)

lemma column_set_column_same: "column (set_column f c vs) c = Inr vs"
  by (simp add: column_def set_column_def update_conv')

lemma column_set_column_other: "c' \<noteq> c \<Longrightarrow> column (set_column f c vs) c' = column f c'"
  by (simp add: column_def set_column_def update_conv')

lemma permute_houses_result:
  assumes "column (heap w dem_data) ''BLKID'' = Inr blk"
    and "column (heap w dem_data) ''TLID'' = Inr tlid"
  shows "permute_houses dem_data seed w =
           (Inr dem_data,
            w\<lparr>py_random := seed,
              heap := (heap w)(dem_data := set_column (heap w dem_data) (''TLID_permuted_'' @ str seed)
                         (fst (transform_permutation blk tlid (np_random w)))),
              np_random := snd (transform_permutation blk tlid (np_random w))\<rparr>)"
  using assms by (simp add: permute_houses_def Let_def split: prod.splits)

text \<open>
  C3: the permuted-label column written by \<^verbatim>\<open>permute_houses\<close>, restricted to the rows
  of one block group, is a permutation of that block group's segment keys, and every
  household receives a segment key of its own block group.
\<close>

theorem permute_houses_within_block:
  assumes wf: "wf_frame (heap w dem_data)"
    and blk: "column (heap w dem_data) ''BLKID'' = Inr blk"
    and tlid: "column (heap w dem_data) ''TLID'' = Inr tlid"
  shows "\<exists>permuted w'.
           permute_houses dem_data seed w = (Inr dem_data, w') \<and>
           column (heap w' dem_data) (''TLID_permuted_'' @ str seed) = Inr permuted \<and>
           length permuted = length tlid \<and>
           (\<forall>b. b \<in> set blk \<and> b \<noteq> NaN \<longrightarrow>
                mset (group_vals b blk permuted) = mset (group_vals b blk tlid)) \<and>
           (\<forall>i. i < length blk \<and> blk ! i \<noteq> NaN \<longrightarrow>
                permuted ! i \<in> set (group_vals (blk ! i) blk tlid))"
proof -
  let ?p = "fst (transform_permutation blk tlid (np_random w))"
  have len: "length tlid = length blk"
    using column_length [OF wf blk] column_length [OF wf tlid] by simp
  have plen: "length ?p = length blk" by (rule transform_permutation_length)
  have grp: "mset (group_vals b blk ?p) = mset (group_vals b blk tlid)"
    if "b \<in> set blk \<and> b \<noteq> NaN" for b
    using transform_permutation_group [OF len, of b] that by (simp add: group_keys_mem)
  have own: "?p ! i \<in> set (group_vals (blk ! i) blk tlid)"
    if "i < length blk \<and> blk ! i \<noteq> NaN" for i
  proof -
    have "?p ! i \<in> set (group_vals (blk ! i) blk ?p)"
      using group_vals_nth [OF plen] that by simp
    moreover have "set (group_vals (blk ! i) blk ?p) = set (group_vals (blk ! i) blk tlid)"
      using grp [of "blk ! i"] that by (metis nth_mem set_mset_mset)
    ultimately show ?thesis by simp
  qed
  show ?thesis
    unfolding permute_houses_result [OF blk tlid]
    using plen len grp own by (simp add: column_set_column_same)
qed

theorem permute_houses_within_block_witness:
  "wf_frame (heap (example_world [0]) 0) \<and>
   column (heap (example_world [0]) 0) ''BLKID'' = Inr [Num 1, Num 1, Num 2] \<and>
   column (heap (example_world [0]) 0) ''TLID'' = Inr [Num 1, Num 2, Num 3] \<and>
   (\<exists>permuted w'.
      permute_houses 0 0 (example_world [0]) = (Inr 0, w') \<and>
      column (heap w' 0) ''TLID_permuted_0'' = Inr permuted \<and>
      mset (group_vals (Num 1) [Num 1, Num 1, Num 2] permuted) = mset [Num 1, Num 2] \<and>
      permuted ! 2 = Num 3)"
proof -
  have wf: "wf_frame (heap (example_world [0]) 0)"
    by (simp add: wf_frame_def example_world_def example_table_def)
  have blk: "column (heap (example_world [0]) 0) ''BLKID'' = Inr [Num 1, Num 1, Num 2]"
    by (simp add: column_def example_world_def example_table_def)
  have tlid: "column (heap (example_world [0]) 0) ''TLID'' = Inr [Num 1, Num 2, Num 3]"
    by (simp add: column_def example_world_def example_table_def)
  from permute_houses_within_block [OF wf blk tlid, of 0]
  obtain permuted w' where
    a: "permute_houses 0 0 (example_world [0]) = (Inr 0, w')" and
    b: "column (heap w' 0) (''TLID_permuted_'' @ str 0) = Inr permuted" and
    c: "\<forall>b. b \<in> set [Num 1, Num 1, Num 2] \<and> b \<noteq> NaN \<longrightarrow>
                mset (group_vals b [Num 1, Num 1, Num 2] permuted) = mset (group_vals b [Num 1, Num 1, Num 2] [Num 1, Num 2, Num 3])" and
    d: "\<forall>i. i < length [Num 1, Num 1, Num (2::rat)] \<and> [Num 1, Num 1, Num 2] ! i \<noteq> NaN \<longrightarrow>
                permuted ! i \<in> set (group_vals ([Num 1, Num 1, Num 2] ! i) [Num 1, Num 1, Num 2] [Num 1, Num 2, Num 3])"
    by blast
  have s: "''TLID_permuted_'' @ str 0 = ''TLID_permuted_0''" by (simp add: str_def str_nat.simps)
  from spec [OF c, of "Num 1"] have c1: "mset (group_vals (Num 1) [Num 1, Num 1, Num 2] permuted) = mset [Num 1, Num 2]"
    by (simp add: group_vals_def)
  from spec [OF d, of 2] have "permuted ! 2 \<in> set (group_vals ([Num 1, Num 1, Num 2] ! 2) [Num 1, Num 1, Num 2] [Num 1, Num 2, Num 3])"
    by simp
  then have d1: "permuted ! 2 = Num 3" by (simp add: group_vals_def)
  show ?thesis using wf blk tlid a b c1 d1 s by auto
qed

lemma group_vals_single:
  assumes len: "length vs = length ks" and i: "i < length ks"
    and one: "length (filter (\<lambda>x. x = ks ! i) ks) = 1"
  shows "group_vals (ks ! i) ks vs = [vs ! i]"
proof -
  have "length (group_vals (ks ! i) ks vs) = 1" using group_vals_length [OF len] one by simp
  then obtain v where v: "group_vals (ks ! i) ks vs = [v]"
    by (cases "group_vals (ks ! i) ks vs") auto
  moreover have "vs ! i \<in> set (group_vals (ks ! i) ks vs)" using group_vals_nth [OF len i] .
  ultimately show ?thesis by simp
qed

lemma transform_permutation_Nil: "transform_permutation [] [] g = ([], g)"
  by (simp add: transform_permutation_def group_keys_def)

lemma nrows_set_column: "nrows (set_column f c vs) = nrows f"
  by (simp add: nrows_def set_column_def)

text \<open>
  C9: \<^verbatim>\<open>permute_houses\<close> on a table with the BLKID and TLID columns succeeds; on a
  table with no rows the new column is present and empty, and the household of a block
  group holding a single household keeps its own segment key.
\<close>

theorem permute_houses_edge_cases:
  assumes wf: "wf_frame (heap w dem_data)"
    and blk: "column (heap w dem_data) ''BLKID'' = Inr blk"
    and tlid: "column (heap w dem_data) ''TLID'' = Inr tlid"
  shows "\<exists>permuted w'.
           permute_houses dem_data seed w = (Inr dem_data, w') \<and>
           column (heap w' dem_data) (''TLID_permuted_'' @ str seed) = Inr permuted \<and>
           nrows (heap w' dem_data) = nrows (heap w dem_data) \<and>
           (nrows (heap w dem_data) = 0 \<longrightarrow> permuted = []) \<and>
           (\<forall>i. i < length blk \<and> blk ! i \<noteq> NaN \<and> length (filter (\<lambda>b. b = blk ! i) blk) = 1 \<longrightarrow>
                permuted ! i = tlid ! i)"
proof -
  let ?p = "fst (transform_permutation blk tlid (np_random w))"
  have len: "length tlid = length blk"
    using column_length [OF wf blk] column_length [OF wf tlid] by simp
  have plen: "length ?p = length blk" by (rule transform_permutation_length)
  have empty: "?p = []" if "nrows (heap w dem_data) = 0"
    using that plen column_length [OF wf blk] by (simp add: nrows_def)
  have single: "?p ! i = tlid ! i"
    if h: "i < length blk \<and> blk ! i \<noteq> NaN \<and> length (filter (\<lambda>b. b = blk ! i) blk) = 1" for i
  proof -
    from h have k: "blk ! i \<in> set (group_keys blk)" by (simp add: group_keys_mem)
    have "mset (group_vals (blk ! i) blk ?p) = mset (group_vals (blk ! i) blk tlid)"
      using transform_permutation_group [OF len k] .
    moreover have "group_vals (blk ! i) blk ?p = [?p ! i]"
      using group_vals_single [OF plen] h by simp
    moreover have "group_vals (blk ! i) blk tlid = [tlid ! i]"
      using group_vals_single [OF len] h by simp
    ultimately show ?thesis by simp
  qed
  show ?thesis
    unfolding permute_houses_result [OF blk tlid]
    using empty single by (simp add: column_set_column_same nrows_set_column)
qed

theorem permute_houses_edge_cases_witness:
  "(\<exists>w'. permute_houses 0 5 (empty_world [3, 1]) = (Inr 0, w') \<and>
         column (heap w' 0) ''TLID_permuted_5'' = Inr [] \<and> nrows (heap w' 0) = 0) \<and>
   (\<exists>permuted w'. permute_houses 0 5 (example_world [0]) = (Inr 0, w') \<and>
         column (heap w' 0) ''TLID_permuted_5'' = Inr permuted \<and> permuted ! 2 = Num 3)"
proof -
  have s: "''TLID_permuted_'' @ str 5 = ''TLID_permuted_5''" by (simp add: str_def str_nat.simps)
  have wf0: "wf_frame (heap (empty_world [3, 1]) 0)"
    by (simp add: wf_frame_def empty_world_def empty_table_def)
  have blk0: "column (heap (empty_world [3, 1]) 0) ''BLKID'' = Inr []"
    by (simp add: column_def empty_world_def empty_table_def)
  have tlid0: "column (heap (empty_world [3, 1]) 0) ''TLID'' = Inr []"
    by (simp add: column_def empty_world_def empty_table_def)
  have n0: "nrows (heap (empty_world [3, 1]) 0) = 0"
    by (simp add: nrows_def empty_world_def empty_table_def)
  have first: "\<exists>w'. permute_houses 0 5 (empty_world [3, 1]) = (Inr 0, w') \<and>
         column (heap w' 0) ''TLID_permuted_5'' = Inr [] \<and> nrows (heap w' 0) = 0"
    using permute_houses_edge_cases [OF wf0 blk0 tlid0, of 5] n0 s by auto
  have wf: "wf_frame (heap (example_world [0]) 0)"
    by (simp add: wf_frame_def example_world_def example_table_def)
  have blk: "column (heap (example_world [0]) 0) ''BLKID'' = Inr [Num 1, Num 1, Num 2]"
    by (simp add: column_def example_world_def example_table_def)
  have tlid: "column (heap (example_world [0]) 0) ''TLID'' = Inr [Num 1, Num 2, Num 3]"
    by (simp add: column_def example_world_def example_table_def)
  from permute_houses_edge_cases [OF wf blk tlid, of 5]
  obtain permuted w' where
    a: "permute_houses 0 5 (example_world [0]) = (Inr 0, w')" and
    b: "column (heap w' 0) (''TLID_permuted_'' @ str 5) = Inr permuted" and
    c: "\<forall>i. i < length [Num 1, Num 1, Num (2::rat)] \<and> [Num 1, Num 1, Num 2] ! i \<noteq> NaN \<and>
             length (filter (\<lambda>b. b = [Num 1, Num 1, Num 2] ! i) [Num 1, Num 1, Num 2]) = 1 \<longrightarrow>
             permuted ! i = [Num 1, Num 2, Num 3] ! i"
    by blast
  from spec [OF c, of 2] have "permuted ! 2 = Num 3" by simp
  with a b s have "\<exists>permuted w'. permute_houses 0 5 (example_world [0]) = (Inr 0, w') \<and>
         column (heap w' 0) ''TLID_permuted_5'' = Inr permuted \<and> permuted ! 2 = Num 3" by auto
  with first show ?thesis by blast
qed

text \<open>
  C2: the seed is given to Python's \<^verbatim>\<open>random\<close> module while the permutation is drawn
  from numpy's generator, which the call does not seed. Two calls with the same seed 7 on
  two tables of equal content, one after the other, give different columns.
\<close>

theorem permute_houses_ignores_seed:
  "heap (example_world [0, 1]) 0 = heap (example_world [0, 1]) 1 \<and>
   (case permute_houses 0 7 (example_world [0, 1]) of
      (r1, w1) \<Rightarrow>
        (case permute_houses 1 7 w1 of
           (r2, w2) \<Rightarrow>
             r1 = Inr 0 \<and> r2 = Inr 1 \<and>
             column (heap w2 0) ''TLID_permuted_7'' = Inr [Num 2, Num 1, Num 3] \<and>
             column (heap w2 1) ''TLID_permuted_7'' = Inr [Num 1, Num 2, Num 3]))"
  by (simp add: permute_houses_def example_world_def example_table_def column_def
        transform_permutation_def group_keys_def group_vals_def permutation_def set_column_def
        str_def str_nat.simps)

section \<open>The caller's table\<close>

lemma permute_houses_Inr:
  assumes "permute_houses d seed w = (Inr r, w1)"
  shows "r = d \<and> (\<exists>p. heap w1 = (heap w)(d := set_column (heap w d) (''TLID_permuted_'' @ str seed) p))"
  using assms by (auto simp: permute_houses_def Let_def split: sum.splits prod.splits)

lemma index_set_column: "index (set_column f c vs) = index f"
  by (simp add: set_column_def)

lemma p_val_loop_frame:
  assumes "p_val_loop ns d aggs w = (Inr aggs', w')"
  shows "(\<forall>r. r \<noteq> d \<longrightarrow> heap w' r = heap w r) \<and>
         index (heap w' d) = index (heap w d) \<and>
         (\<forall>c. (\<forall>i \<in> set ns. c \<noteq> ''TLID_permuted_'' @ str (int i)) \<longrightarrow>
              column (heap w' d) c = column (heap w d) c) \<and>
         (\<forall>c p. column (heap w d) c = Inr p \<longrightarrow> (\<exists>p'. column (heap w' d) c = Inr p')) \<and>
         (\<forall>i \<in> set ns. \<exists>p. column (heap w' d) (''TLID_permuted_'' @ str (int i)) = Inr p)"
  using assms
proof (induction ns arbitrary: aggs w)
  case Nil
  then show ?case by simp
next
  case (Cons i ns)
  let ?name = "''TLID_permuted_'' @ str (int i)"
  from Cons.prems obtain r w1 where ph: "permute_houses d (int i) w = (Inr r, w1)"
    by (cases "permute_houses d (int i) w"; cases "fst (permute_houses d (int i) w)") auto
  from permute_houses_Inr [OF ph] obtain p where
    r: "r = d" and h1: "heap w1 = (heap w)(d := set_column (heap w d) ?name p)" by blast
  from Cons.prems ph obtain aggs1 where rest: "p_val_loop ns d aggs1 w1 = (Inr aggs', w')"
    by (auto split: sum.splits)
  note IH = Cons.IH [OF rest]
  have a: "\<forall>r. r \<noteq> d \<longrightarrow> heap w' r = heap w r" using IH h1 by simp
  have b: "index (heap w' d) = index (heap w d)" using IH h1 by (simp add: index_set_column)
  have c: "\<forall>c. (\<forall>j \<in> set (i # ns). c \<noteq> ''TLID_permuted_'' @ str (int j)) \<longrightarrow>
              column (heap w' d) c = column (heap w d) c"
    using IH h1 by (simp add: column_set_column_other)
  have e: "\<exists>p'. column (heap w' d) c = Inr p'" if "column (heap w d) c = Inr q" for c q
  proof -
    have "\<exists>q'. column (heap w1 d) c = Inr q'"
      using that h1 by (cases "c = ?name") (simp_all add: column_set_column_same column_set_column_other)
    then show ?thesis using IH by blast
  qed
  have "column (heap w1 d) ?name = Inr p" using h1 by (simp add: column_set_column_same)
  then have f: "\<exists>p. column (heap w' d) ?name = Inr p" using IH by blast
  show ?case using a b c e f IH by auto
qed

lemma find_p_vals_loop:
  assumes "find_p_vals d n w = (Inr res, w')"
  shows "\<exists>aggs aggs'. p_val_loop (py_range n) d aggs w = (Inr aggs', w')"
  using assms
  by (auto simp: find_p_vals_def compute_pvalues_def split: sum.splits prod.splits option.splits)

text \<open>
  C10: \<^verbatim>\<open>permute_houses\<close> returns the reference it was given and changes that table in
  place; after \<^verbatim>\<open>find_p_vals\<close> has returned, the caller's table holds the columns
  TLID_permuted_0 to TLID_permuted_(N-1), and its index and every other column (so MAFID,
  BLKID, TLID and A to E) are as before.
\<close>

theorem find_p_vals_mutates_input:
  "(\<forall>seed r w1. permute_houses data seed w = (Inr r, w1) \<longrightarrow>
        r = data \<and>
        (\<exists>p. heap w1 = (heap w)(data := set_column (heap w data) (''TLID_permuted_'' @ str seed) p))) \<and>
   (\<forall>res w'. find_p_vals data iterations w = (Inr res, w') \<longrightarrow>
        (\<forall>i. i < nat iterations \<longrightarrow>
             (\<exists>p. column (heap w' data) (''TLID_permuted_'' @ str (int i)) = Inr p)) \<and>
        (\<forall>c. (\<forall>i. i < nat iterations \<longrightarrow> c \<noteq> ''TLID_permuted_'' @ str (int i)) \<longrightarrow>
             column (heap w' data) c = column (heap w data) c) \<and>
        (\<forall>c \<in> set ([''MAFID'', ''BLKID'', ''TLID''] @ vars).
             column (heap w' data) c = column (heap w data) c) \<and>
        index (heap w' data) = index (heap w data) \<and>
        (\<forall>r. r \<noteq> data \<longrightarrow> heap w' r = heap w r))"
proof (intro conjI allI impI)
  fix seed r w1 assume "permute_houses data seed w = (Inr r, w1)"
  from permute_houses_Inr [OF this]
  show "r = data"
    and "\<exists>p. heap w1 = (heap w)(data := set_column (heap w data) (''TLID_permuted_'' @ str seed) p)"
    by blast+
next
  fix res w' assume fp: "find_p_vals data iterations w = (Inr res, w')"
  from find_p_vals_loop [OF fp] obtain aggs aggs'
    where "p_val_loop (py_range iterations) data aggs w = (Inr aggs', w')" by blast
  note L = p_val_loop_frame [OF this]
  { fix i assume "i < nat iterations"
    then show "\<exists>p. column (heap w' data) (''TLID_permuted_'' @ str (int i)) = Inr p"
      using L by (simp add: py_range_def) }
  { fix c assume "\<forall>i. i < nat iterations \<longrightarrow> c \<noteq> ''TLID_permuted_'' @ str (int i)"
    then show "column (heap w' data) c = column (heap w data) c"
      using L by (simp add: py_range_def) }
  show "\<forall>c \<in> set ([''MAFID'', ''BLKID'', ''TLID''] @ vars).
             column (heap w' data) c = column (heap w data) c"
    using L by (simp add: py_range_def vars_def)
  show "index (heap w' data) = index (heap w data)" using L by simp
  { fix r assume "r \<noteq> data" then show "heap w' r = heap w r" using L by simp }
qed

theorem find_p_vals_mutates_input_witness:
  "(\<exists>p. heap (snd (permute_houses 0 4 (example_world [0, 1]))) =
          (heap (example_world [0, 1]))(0 := set_column (heap (example_world [0, 1]) 0) ''TLID_permuted_4'' p)) \<and>
   (\<exists>res. fst (find_p_vals 0 2 (example_world [0, 1])) = Inr res) \<and>
   (\<exists>p. column (heap (snd (find_p_vals 0 2 (example_world [0, 1]))) 0) ''TLID_permuted_1'' = Inr p) \<and>
   column (heap (snd (find_p_vals 0 2 (example_world [0, 1]))) 0) ''TLID'' = Inr [Num 1, Num 2, Num 3] \<and>
   column (heap (snd (find_p_vals 0 2 (example_world [0, 1]))) 0) ''A'' = Inr [Num 1, Num 3, Num 2] \<and>
   index (heap (snd (find_p_vals 0 2 (example_world [0, 1]))) 0) = [Num 0, Num 1, Num 2]"
proof -
  let ?w = "example_world [0, 1]"
  have s: "''TLID_permuted_'' @ str 4 = ''TLID_permuted_4''"
    "''TLID_permuted_'' @ str (int 1) = ''TLID_permuted_1''" by (simp_all add: str_def str_nat.simps)
  have "\<not> isl (fst (permute_houses 0 4 ?w))" by code_simp
  then obtain r where ph: "permute_houses 0 4 ?w = (Inr r, snd (permute_houses 0 4 ?w))"
    by (cases "permute_houses 0 4 ?w"; cases "fst (permute_houses 0 4 ?w)") auto
  note T = find_p_vals_mutates_input [of 0 ?w 2]
  from T ph have a: "\<exists>p. heap (snd (permute_houses 0 4 ?w)) =
          (heap ?w)(0 := set_column (heap ?w 0) (''TLID_permuted_'' @ str 4) p)" by blast
  have "\<not> isl (fst (find_p_vals 0 2 ?w))" by code_simp
  then obtain res where fp': "find_p_vals 0 2 ?w = (Inr res, snd (find_p_vals 0 2 ?w))"
    by (cases "find_p_vals 0 2 ?w"; cases "fst (find_p_vals 0 2 ?w)") auto
  then have fp: "\<exists>res. fst (find_p_vals 0 2 ?w) = Inr res" by (metis fst_conv)
  from T fp' have
    b: "\<forall>i. i < nat 2 \<longrightarrow> (\<exists>p. column (heap (snd (find_p_vals 0 2 ?w)) 0) (''TLID_permuted_'' @ str (int i)) = Inr p)" and
    c: "\<forall>c \<in> set ([''MAFID'', ''BLKID'', ''TLID''] @ vars).
             column (heap (snd (find_p_vals 0 2 ?w)) 0) c = column (heap ?w 0) c" and
    d: "index (heap (snd (find_p_vals 0 2 ?w)) 0) = index (heap ?w 0)"
    by blast+
  from spec [OF b, of 1] have b1: "\<exists>p. column (heap (snd (find_p_vals 0 2 ?w)) 0) ''TLID_permuted_1'' = Inr p"
    using s by simp
  from c have c1: "column (heap (snd (find_p_vals 0 2 ?w)) 0) ''TLID'' = Inr [Num 1, Num 2, Num 3]"
    and c2: "column (heap (snd (find_p_vals 0 2 ?w)) 0) ''A'' = Inr [Num 1, Num 3, Num 2]"
    by (simp_all add: vars_def column_def example_world_def example_table_def)
  from d have d1: "index (heap (snd (find_p_vals 0 2 ?w)) 0) = [Num 0, Num 1, Num 2]"
    by (simp add: example_world_def example_table_def)
  show ?thesis using a fp b1 c1 c2 d1 s by simp
qed

section \<open>Averaging\<close>

lemma map_of_filter_names:
  "map_of (filter (\<lambda>cv. fst cv \<notin> S) xs) c = (if c \<in> S then None else map_of xs c)"
  by (induction xs) auto

lemma select_Inr:
  "\<forall>c \<in> set cs. map_of (columns f) c \<noteq> None \<Longrightarrow>
   select f cs = Inr (f\<lparr>columns := map (\<lambda>c. (c, the (map_of (columns f) c))) cs\<rparr>)"
  by (simp add: select_def Let_def filter_empty_conv)

lemma select_Inl:
  "\<exists>c \<in> set cs. map_of (columns f) c = None \<Longrightarrow>
   select f cs = Inl (KeyError (filter (\<lambda>c. map_of (columns f) c = None) cs))"
  by (simp add: select_def Let_def filter_empty_conv)

lemma row_means_selected:
  "row_means (f\<lparr>columns := map (\<lambda>c. (c, the (map_of (columns f) c))) cs\<rparr>) =
     mean_of_columns (the_columns f cs) (nrows f)"
  by (simp add: row_means_def mean_of_columns_def the_columns_def nrows_def comp_def)

lemma mean_of_columns_length: "length (mean_of_columns cols n) = n"
  by (simp add: mean_of_columns_def)

lemma nums_map_Num: "nums (map Num xs) = xs"
  by (induction xs) simp_all

lemma nanmean_numbers:
  "xs \<noteq> [] \<Longrightarrow> nanmean (map Num xs) = Num (arithmetic_mean xs)"
  by (simp add: nanmean_def nums_map_Num arithmetic_mean_def)

lemma wf_set_column:
  assumes "wf_frame f" and "length vs = nrows f"
  shows "wf_frame (set_column f c vs)"
proof -
  have "set (AList.update c vs al) \<subseteq> insert (c, vs) (set al)" for al
    by (induction al) auto
  then have "set (AList.update c vs (columns f)) \<subseteq> insert (c, vs) (set (columns f))" .
  moreover have "\<forall>cv \<in> insert (c, vs) (set (columns f)). length (snd cv) = length (index f)"
    using assms by (simp add: wf_frame_def list_all_iff nrows_def)
  ultimately have "\<forall>cv \<in> set (AList.update c vs (columns f)). length (snd cv) = length (index f)"
    by blast
  then show ?thesis using assms(1)
    by (simp add: wf_frame_def set_column_def distinct_update list_all_iff)
qed

lemma wf_filter_columns:
  "wf_frame f \<Longrightarrow> wf_frame (f\<lparr>columns := filter P (columns f)\<rparr>)"
  by (simp add: wf_frame_def distinct_map_filter list_all_iff)

lemma average_col_ok:
  assumes "\<forall>c \<in> set (p_val_names v n). map_of (columns f) c \<noteq> None"
  shows "\<exists>f'. average_col v n f = (None, f') \<and> index f' = index f \<and>
           (\<forall>c. map_of (columns f') c =
                 (if c \<in> set (p_val_names v n) then None
                  else if c = v @ ''_avg_p''
                       then Some (mean_of_columns (the_columns f (p_val_names v n)) (nrows f))
                       else map_of (columns f) c)) \<and>
           (wf_frame f \<longrightarrow> wf_frame f')"
proof -
  let ?m = "mean_of_columns (the_columns f (p_val_names v n)) (nrows f)"
  let ?f1 = "set_column f (v @ ''_avg_p'') ?m"
  let ?f2 = "?f1\<lparr>columns := filter (\<lambda>cv. fst cv \<notin> set (p_val_names v n)) (columns ?f1)\<rparr>"
  have "\<forall>c \<in> set (p_val_names v n). map_of (columns ?f1) c \<noteq> None"
    using assms by (simp add: set_column_def update_conv')
  then have "average_col v n f = (None, ?f2)"
    using select_Inr [OF assms]
    by (simp add: average_col_def Let_def drop_columns_def filter_empty_conv row_means_selected)
  moreover have "index ?f2 = index f" by (simp add: set_column_def)
  moreover have "\<forall>c. map_of (columns ?f2) c =
                 (if c \<in> set (p_val_names v n) then None
                  else if c = v @ ''_avg_p'' then Some ?m else map_of (columns f) c)"
    by (simp add: map_of_filter_names set_column_def update_conv')
  moreover have "wf_frame f \<longrightarrow> wf_frame ?f2"
    using wf_filter_columns [OF wf_set_column [of f ?m "v @ ''_avg_p''"]]
    by (simp add: mean_of_columns_length)
  ultimately show ?thesis by blast
qed

lemma average_col_fail:
  assumes "\<exists>c \<in> set (p_val_names v n). map_of (columns f) c = None"
  shows "average_col v n f =
           (Some (KeyError (filter (\<lambda>c. map_of (columns f) c = None) (p_val_names v n))), f)"
  using select_Inl [OF assms] by (simp add: average_col_def Let_def)

lemma avg_name_not_p_val_name:
  "length v = 1 \<Longrightarrow> length v' = 1 \<Longrightarrow> v @ ''_avg_p'' \<notin> set (p_val_names v' n)"
  by (cases v; cases v') (auto simp: p_val_names_def)

lemma p_val_names_disjoint:
  "length v = 1 \<Longrightarrow> length v' = 1 \<Longrightarrow> v \<noteq> v' \<Longrightarrow> c \<in> set (p_val_names v n) \<Longrightarrow>
   c \<notin> set (p_val_names v' n)"
  by (cases v; cases v') (auto simp: p_val_names_def)

lemma the_columns_cong:
  "\<forall>c \<in> set cs. map_of (columns f1) c = map_of (columns f) c \<Longrightarrow>
   the_columns f1 cs = the_columns f cs"
  by (simp add: the_columns_def)

lemma average_loop_ok:
  assumes "\<forall>v \<in> set cols. length v = 1" and "distinct cols"
    and "\<forall>v \<in> set cols. \<forall>c \<in> set (p_val_names v n). map_of (columns f) c \<noteq> None"
  shows "\<exists>f'. average_loop cols n f = (None, f') \<and> index f' = index f \<and>
           (\<forall>v \<in> set cols. \<forall>c \<in> set (p_val_names v n). map_of (columns f') c = None) \<and>
           (\<forall>v \<in> set cols. map_of (columns f') (v @ ''_avg_p'') =
                Some (mean_of_columns (the_columns f (p_val_names v n)) (nrows f))) \<and>
           (\<forall>c. (\<forall>v \<in> set cols. c \<notin> set (p_val_names v n) \<and> c \<noteq> v @ ''_avg_p'') \<longrightarrow>
                map_of (columns f') c = map_of (columns f) c) \<and>
           (wf_frame f \<longrightarrow> wf_frame f')"
  using assms
proof (induction cols arbitrary: f)
  case Nil
  then show ?case by simp
next
  case (Cons v cols)
  have lv: "length v = 1" and lcols: "\<forall>v' \<in> set cols. length v' = 1"
    and vnotin: "v \<notin> set cols" and dcols: "distinct cols"
    using Cons.prems by simp_all
  have pv: "\<forall>c \<in> set (p_val_names v n). map_of (columns f) c \<noteq> None"
    using Cons.prems(3) by simp
  from average_col_ok [OF pv] obtain f1 where
    step: "average_col v n f = (None, f1)" and idx1: "index f1 = index f" and
    m1: "\<And>c. map_of (columns f1) c =
                 (if c \<in> set (p_val_names v n) then None
                  else if c = v @ ''_avg_p''
                       then Some (mean_of_columns (the_columns f (p_val_names v n)) (nrows f))
                       else map_of (columns f) c)" and
    wf1: "wf_frame f \<longrightarrow> wf_frame f1"
    by blast
  have same: "map_of (columns f1) c = map_of (columns f) c"
    if "v' \<in> set cols" and "c \<in> set (p_val_names v' n)" for v' c
  proof -
    have "v' \<noteq> v" using that vnotin by auto
    then have "c \<notin> set (p_val_names v n)"
      using p_val_names_disjoint [of v' v c n] lv lcols that by auto
    moreover have "c \<noteq> v @ ''_avg_p''"
      using avg_name_not_p_val_name [of v v' n] lv lcols that by auto
    ultimately show ?thesis by (simp add: m1)
  qed
  then have pres: "\<forall>v' \<in> set cols. \<forall>c \<in> set (p_val_names v' n). map_of (columns f1) c \<noteq> None"
    using Cons.prems(3) by simp
  from Cons.IH [OF lcols dcols pres] obtain f' where
    loop: "average_loop cols n f1 = (None, f')" and idx: "index f' = index f1" and
    i1: "\<forall>v' \<in> set cols. \<forall>c \<in> set (p_val_names v' n). map_of (columns f') c = None" and
    i2: "\<forall>v' \<in> set cols. map_of (columns f') (v' @ ''_avg_p'') =
                Some (mean_of_columns (the_columns f1 (p_val_names v' n)) (nrows f1))" and
    i3: "\<forall>c. (\<forall>v' \<in> set cols. c \<notin> set (p_val_names v' n) \<and> c \<noteq> v' @ ''_avg_p'') \<longrightarrow>
                map_of (columns f') c = map_of (columns f1) c" and
    wf': "wf_frame f1 \<longrightarrow> wf_frame f'"
    by blast
  have nrows1: "nrows f1 = nrows f" using idx1 by (simp add: nrows_def)
  have a: "average_loop (v # cols) n f = (None, f')" using step loop by simp
  have b: "index f' = index f" using idx idx1 by simp
  have c: "map_of (columns f') c = None" if "v' \<in> set (v # cols)" "c \<in> set (p_val_names v' n)" for v' c
  proof (cases "v' = v")
    case True
    have "\<forall>u \<in> set cols. c \<notin> set (p_val_names u n) \<and> c \<noteq> u @ ''_avg_p''"
    proof
      fix u assume u: "u \<in> set cols"
      then have "u \<noteq> v" using vnotin by auto
      then have "c \<notin> set (p_val_names u n)"
        using p_val_names_disjoint [of v u c n] lv lcols u that True by auto
      moreover have "c \<noteq> u @ ''_avg_p''"
        using avg_name_not_p_val_name [of u v n] lv lcols u that True by auto
      ultimately show "c \<notin> set (p_val_names u n) \<and> c \<noteq> u @ ''_avg_p''" by simp
    qed
    then have "map_of (columns f') c = map_of (columns f1) c" using i3 by simp
    then show ?thesis using that True by (simp add: m1)
  next
    case False
    then show ?thesis using that i1 by simp
  qed
  have d: "map_of (columns f') (v' @ ''_avg_p'') =
             Some (mean_of_columns (the_columns f (p_val_names v' n)) (nrows f))"
    if "v' \<in> set (v # cols)" for v'
  proof (cases "v' = v")
    case True
    have "\<forall>u \<in> set cols. v @ ''_avg_p'' \<notin> set (p_val_names u n) \<and> v @ ''_avg_p'' \<noteq> u @ ''_avg_p''"
      using avg_name_not_p_val_name [of v _ n] lv lcols vnotin by auto
    then have "map_of (columns f') (v @ ''_avg_p'') = map_of (columns f1) (v @ ''_avg_p'')"
      using i3 by simp
    moreover have "v @ ''_avg_p'' \<notin> set (p_val_names v n)"
      using avg_name_not_p_val_name [of v v n] lv by simp
    ultimately show ?thesis using True by (simp add: m1)
  next
    case False
    then have v': "v' \<in> set cols" using that by simp
    have "the_columns f1 (p_val_names v' n) = the_columns f (p_val_names v' n)"
      by (rule the_columns_cong) (use same v' in blast)
    then show ?thesis using i2 v' nrows1 by simp
  qed
  have e: "map_of (columns f') c = map_of (columns f) c"
    if "\<forall>v' \<in> set (v # cols). c \<notin> set (p_val_names v' n) \<and> c \<noteq> v' @ ''_avg_p''" for c
    using that i3 by (simp add: m1)
  have f: "wf_frame f \<longrightarrow> wf_frame f'" using wf1 wf' by simp
  show ?case using a b c d e f by blast
qed

lemma average_loop_fail:
  assumes "\<forall>v \<in> set cols. length v = 1"
    and "\<exists>v \<in> set cols. \<exists>c \<in> set (p_val_names v n). map_of (columns f) c = None"
  shows "\<exists>ms. fst (average_loop cols n f) = Some (KeyError ms) \<and> ms \<noteq> [] \<and>
           set ms \<subseteq> (\<Union>v \<in> set cols. set (p_val_names v n))"
  using assms
proof (induction cols arbitrary: f)
  case Nil
  then show ?case by simp
next
  case (Cons v cols)
  show ?case
  proof (cases "\<exists>c \<in> set (p_val_names v n). map_of (columns f) c = None")
    case True
    let ?ms = "filter (\<lambda>c. map_of (columns f) c = None) (p_val_names v n)"
    have "?ms \<noteq> []" using True by (simp add: filter_empty_conv)
    moreover have "set ?ms \<subseteq> (\<Union>v \<in> set (v # cols). set (p_val_names v n))" by auto
    moreover have "fst (average_loop (v # cols) n f) = Some (KeyError ?ms)"
      using average_col_fail [OF True] by simp
    ultimately show ?thesis by blast
  next
    case False
    then have pv: "\<forall>c \<in> set (p_val_names v n). map_of (columns f) c \<noteq> None" by simp
    from average_col_ok [OF pv] obtain f1 where
      step: "average_col v n f = (None, f1)" and
      m1: "\<And>c. map_of (columns f1) c =
                 (if c \<in> set (p_val_names v n) then None
                  else if c = v @ ''_avg_p''
                       then Some (mean_of_columns (the_columns f (p_val_names v n)) (nrows f))
                       else map_of (columns f) c)"
      by blast
    from Cons.prems(2) False obtain v' c where
      v': "v' \<in> set cols" and c: "c \<in> set (p_val_names v' n)" and none: "map_of (columns f) c = None"
      by auto
    have "c \<noteq> v @ ''_avg_p''"
      using avg_name_not_p_val_name [of v v' n] Cons.prems(1) v' c by auto
    then have "map_of (columns f1) c = None" using none by (simp add: m1)
    then have "\<exists>v \<in> set cols. \<exists>c \<in> set (p_val_names v n). map_of (columns f1) c = None"
      using v' c by blast
    from Cons.IH [OF _ this] Cons.prems(1) obtain ms where
      "fst (average_loop cols n f1) = Some (KeyError ms)" "ms \<noteq> []"
      "set ms \<subseteq> (\<Union>v \<in> set cols. set (p_val_names v n))" by auto
    then show ?thesis using step by auto
  qed
qed

lemma vars_single: "\<forall>v \<in> set vars. length v = 1"
  by (simp add: vars_def)

lemma vars_distinct: "distinct vars"
  by (simp add: vars_def)

lemma column_Some: "map_of (columns f) c = Some vs \<Longrightarrow> column f c = Inr vs"
  by (simp add: column_def)

lemma column_None: "map_of (columns f) c = None \<Longrightarrow> column f c = Inl (KeyError [c])"
  by (simp add: column_def)

lemma column_present: "(\<exists>vs. column f c = Inr vs) \<longleftrightarrow> map_of (columns f) c \<noteq> None"
  by (auto simp: column_def split: option.splits)

lemma count_name_one:
  "distinct (map fst xs) \<Longrightarrow> map_of xs c = Some v \<Longrightarrow>
   length (filter (\<lambda>cv. fst cv = c) xs) = 1"
proof (induction xs)
  case Nil
  then show ?case by simp
next
  case (Cons x xs)
  show ?case
  proof (cases "fst x = c")
    case True
    then have "c \<notin> fst ` set xs" using Cons.prems(1) by auto
    then have "filter (\<lambda>cv. fst cv = c) xs = []" by (auto simp: filter_empty_conv)
    then show ?thesis using True by simp
  next
    case False
    then show ?thesis using Cons by (cases x) auto
  qed
qed

lemma mean_of_columns_numbers:
  assumes "r < n" and "xs \<noteq> []" and "map (\<lambda>col. col ! r) cols = map Num xs"
  shows "mean_of_columns cols n ! r = Num (arithmetic_mean xs)"
  using assms by (simp add: mean_of_columns_def nanmean_numbers)

text \<open>
  C6: on a well-formed p-value table that holds, for every tracked variable, its N
  per-iteration columns, \<^verbatim>\<open>average_pvals\<close> returns normally; for every variable the
  table then has exactly one column \<open>v_avg_p\<close>, holding row by row the mean of the N
  columns \<open>v_p_0 .. v_p_(N-1)\<close> of the input (the arithmetic mean where the row holds
  numbers), and none of these N columns is left.
\<close>

theorem average_pvals_means:
  assumes wf: "wf_frame pval_df"
    and present: "\<forall>v \<in> set vars. \<forall>c \<in> set (p_val_names v n). \<exists>vs. column pval_df c = Inr vs"
  shows "\<exists>res. average_pvals pval_df n = (None, res) \<and>
           index res = index pval_df \<and> wf_frame res \<and>
           (\<forall>v \<in> set vars.
              column res (v @ ''_avg_p'') =
                Inr (mean_of_columns (the_columns pval_df (p_val_names v n)) (nrows pval_df)) \<and>
              length (filter (\<lambda>cv. fst cv = v @ ''_avg_p'') (columns res)) = 1 \<and>
              (\<forall>c \<in> set (p_val_names v n). column res c = Inl (KeyError [c])) \<and>
              (\<forall>r xs. r < nrows pval_df \<and> xs \<noteq> [] \<and>
                   map (\<lambda>col. col ! r) (the_columns pval_df (p_val_names v n)) = map Num xs \<longrightarrow>
                   mean_of_columns (the_columns pval_df (p_val_names v n)) (nrows pval_df) ! r =
                     Num (arithmetic_mean xs)))"
proof -
  have pres: "\<forall>v \<in> set vars. \<forall>c \<in> set (p_val_names v n). map_of (columns pval_df) c \<noteq> None"
    using present by (simp add: column_present)
  from average_loop_ok [OF vars_single vars_distinct pres] obtain res where
    a: "average_loop vars n pval_df = (None, res)" and b: "index res = index pval_df" and
    c: "\<forall>v \<in> set vars. \<forall>c \<in> set (p_val_names v n). map_of (columns res) c = None" and
    d: "\<forall>v \<in> set vars. map_of (columns res) (v @ ''_avg_p'') =
           Some (mean_of_columns (the_columns pval_df (p_val_names v n)) (nrows pval_df))" and
    e: "wf_frame pval_df \<longrightarrow> wf_frame res"
    by blast
  have wfr: "wf_frame res" using e wf by simp
  then have dist: "distinct (map fst (columns res))" by (simp add: wf_frame_def)
  have "column res (v @ ''_avg_p'') =
                Inr (mean_of_columns (the_columns pval_df (p_val_names v n)) (nrows pval_df)) \<and>
              length (filter (\<lambda>cv. fst cv = v @ ''_avg_p'') (columns res)) = 1 \<and>
              (\<forall>c \<in> set (p_val_names v n). column res c = Inl (KeyError [c])) \<and>
              (\<forall>r xs. r < nrows pval_df \<and> xs \<noteq> [] \<and>
                   map (\<lambda>col. col ! r) (the_columns pval_df (p_val_names v n)) = map Num xs \<longrightarrow>
                   mean_of_columns (the_columns pval_df (p_val_names v n)) (nrows pval_df) ! r =
                     Num (arithmetic_mean xs))"
    if v: "v \<in> set vars" for v
  proof (intro conjI ballI allI impI)
    show "column res (v @ ''_avg_p'') =
            Inr (mean_of_columns (the_columns pval_df (p_val_names v n)) (nrows pval_df))"
      using d v by (simp add: column_Some)
    show "length (filter (\<lambda>cv. fst cv = v @ ''_avg_p'') (columns res)) = 1"
      using count_name_one [OF dist] d v by blast
    show "column res c = Inl (KeyError [c])" if "c \<in> set (p_val_names v n)" for c
      using c v that by (simp add: column_None)
    show "mean_of_columns (the_columns pval_df (p_val_names v n)) (nrows pval_df) ! r =
            Num (arithmetic_mean xs)"
      if "r < nrows pval_df \<and> xs \<noteq> [] \<and>
          map (\<lambda>col. col ! r) (the_columns pval_df (p_val_names v n)) = map Num xs" for r xs
      using mean_of_columns_numbers that by blast
  qed
  then show ?thesis using a b wfr by (simp add: average_pvals_def)
qed

theorem average_pvals_means_witness:
  "wf_frame example_pvals \<and>
   (\<exists>res. average_pvals example_pvals 2 = (None, res) \<and>
      index res = [Num 1, Num 2] \<and>
      column res ''A_avg_p'' = Inr [Num (1/4), Num (1/4)] \<and>
      length (filter (\<lambda>cv. fst cv = ''A_avg_p'') (columns res)) = 1 \<and>
      column res ''A_p_1'' = Inl (KeyError [''A_p_1'']) \<and>
      arithmetic_mean [1/2, 0] = 1/4)"
proof -
  have wf: "wf_frame example_pvals" by code_simp
  have "\<forall>v \<in> set vars. \<forall>c \<in> set (p_val_names v 2). map_of (columns example_pvals) c \<noteq> None"
    by code_simp
  then have present:
    "\<forall>v \<in> set vars. \<forall>c \<in> set (p_val_names v 2). \<exists>vs. column example_pvals c = Inr vs"
    by (simp add: column_present)
  have A: "''A'' \<in> set vars" by (simp add: vars_def)
  have names: "''A_p_1'' \<in> set (p_val_names ''A'' 2)" by code_simp
  have m: "mean_of_columns (the_columns example_pvals (p_val_names ''A'' 2)) (nrows example_pvals)
             = [Num (1/4), Num (1/4)]" by code_simp
  have row: "0 < nrows example_pvals \<and> [1/2, 0::rat] \<noteq> [] \<and>
             map (\<lambda>col. col ! 0) (the_columns example_pvals (p_val_names ''A'' 2)) = map Num [1/2, 0]"
    by code_simp
  have idx: "index example_pvals = [Num 1, Num 2]" by (simp add: example_pvals_def)
  from average_pvals_means [OF wf present] obtain res where
    a: "average_pvals example_pvals 2 = (None, res)" and b: "index res = index example_pvals" and
    c: "\<forall>v \<in> set vars.
              column res (v @ ''_avg_p'') =
                Inr (mean_of_columns (the_columns example_pvals (p_val_names v 2)) (nrows example_pvals)) \<and>
              length (filter (\<lambda>cv. fst cv = v @ ''_avg_p'') (columns res)) = 1 \<and>
              (\<forall>c \<in> set (p_val_names v 2). column res c = Inl (KeyError [c])) \<and>
              (\<forall>r xs. r < nrows example_pvals \<and> xs \<noteq> [] \<and>
                   map (\<lambda>col. col ! r) (the_columns example_pvals (p_val_names v 2)) = map Num xs \<longrightarrow>
                   mean_of_columns (the_columns example_pvals (p_val_names v 2)) (nrows example_pvals) ! r =
                     Num (arithmetic_mean xs))"
    by blast
  from bspec [OF c A] have
    c1: "column res (''A'' @ ''_avg_p'') =
           Inr (mean_of_columns (the_columns example_pvals (p_val_names ''A'' 2)) (nrows example_pvals))" and
    c2: "length (filter (\<lambda>cv. fst cv = ''A'' @ ''_avg_p'') (columns res)) = 1" and
    c3: "\<forall>c \<in> set (p_val_names ''A'' 2). column res c = Inl (KeyError [c])" and
    c4: "\<forall>r xs. r < nrows example_pvals \<and> xs \<noteq> [] \<and>
                   map (\<lambda>col. col ! r) (the_columns example_pvals (p_val_names ''A'' 2)) = map Num xs \<longrightarrow>
                   mean_of_columns (the_columns example_pvals (p_val_names ''A'' 2)) (nrows example_pvals) ! r =
                     Num (arithmetic_mean xs)"
    by blast+
  from bspec [OF c3 names] have d3: "column res ''A_p_1'' = Inl (KeyError [''A_p_1''])" .
  from c4 row have "mean_of_columns (the_columns example_pvals (p_val_names ''A'' 2)) (nrows example_pvals) ! 0 =
                     Num (arithmetic_mean [1/2, 0])" by blast
  then have d4: "arithmetic_mean [1/2, 0] = 1/4" using m by simp
  show ?thesis using wf a b idx c1 c2 d3 d4 m by simp
qed

section \<open>Column names\<close>

lemma digit_inj:
  "a < 10 \<Longrightarrow> b < 10 \<Longrightarrow> ''0123456789'' ! a = ''0123456789'' ! b \<Longrightarrow> a = b"
proof -
  assume a: "a < 10" and b: "b < 10" and e: "''0123456789'' ! a = ''0123456789'' ! b"
  have d: "distinct ''0123456789''" by simp
  have "a < length ''0123456789''" "b < length ''0123456789''" using a b by simp_all
  with d e show "a = b" using nth_eq_iff_index_eq by blast
qed

lemma str_nat_nonempty: "str_nat n \<noteq> []"
  by (subst str_nat.simps) simp

lemma str_nat_inj: "str_nat n = str_nat m \<Longrightarrow> n = m"
proof (induction n arbitrary: m rule: str_nat.induct)
  case (1 n)
  show ?case
  proof (cases "n < 10")
    case True
    then have n: "str_nat n = [''0123456789'' ! n]" by (subst str_nat.simps) simp
    show ?thesis
    proof (cases "m < 10")
      case True
      then have "str_nat m = [''0123456789'' ! m]" by (subst str_nat.simps) simp
      with n "1.prems" have "''0123456789'' ! n = ''0123456789'' ! m" by simp
      then show ?thesis using digit_inj \<open>n < 10\<close> True by blast
    next
      case False
      then have "str_nat m = str_nat (m div 10) @ [''0123456789'' ! (m mod 10)]"
        by (subst str_nat.simps) simp
      with n "1.prems" have "str_nat (m div 10) = []" by simp
      then show ?thesis using str_nat_nonempty by blast
    qed
  next
    case False
    then have n: "str_nat n = str_nat (n div 10) @ [''0123456789'' ! (n mod 10)]"
      by (subst str_nat.simps) simp
    show ?thesis
    proof (cases "m < 10")
      case True
      then have "str_nat m = [''0123456789'' ! m]" by (subst str_nat.simps) simp
      with n "1.prems" have "str_nat (n div 10) = []" by simp
      then show ?thesis using str_nat_nonempty by blast
    next
      case m: False
      then have "str_nat m = str_nat (m div 10) @ [''0123456789'' ! (m mod 10)]"
        by (subst str_nat.simps) simp
      with n "1.prems" have a: "str_nat (n div 10) = str_nat (m div 10)"
        and b: "''0123456789'' ! (n mod 10) = ''0123456789'' ! (m mod 10)" by simp_all
      from "1.IH" [OF False a] have "n div 10 = m div 10" .
      moreover from digit_inj [OF _ _ b] have "n mod 10 = m mod 10" by simp
      ultimately show ?thesis by (metis div_mult_mod_eq)
    qed
  qed
qed

lemma str_int_inj: "str (int i) = str (int j) \<Longrightarrow> i = j"
  by (simp add: str_def str_nat_inj)

lemma permuted_name_inj:
  "''TLID_permuted_'' @ str (int i) = ''TLID_permuted_'' @ str (int j) \<longleftrightarrow> i = j"
  using str_int_inj by auto

lemma p_val_name_inj:
  "v @ ''_p_'' @ str (int i) = v @ ''_p_'' @ str (int j) \<longleftrightarrow> i = j"
  using str_int_inj by auto

section \<open>Aggregates and the p-value of line 93\<close>

lemma column_eq_iff:
  "column f c = column f' c \<longleftrightarrow> map_of (columns f) c = map_of (columns f') c"
  by (auto simp: column_def split: option.splits)

lemma map_of_map_snd:
  "map_of (map (\<lambda>cv. (fst cv, g (snd cv))) xs) c = map_option g (map_of xs c)"
  by (induction xs) auto

lemma map_of_map_key:
  "map_of (map (\<lambda>c. (c, g c)) cs) c = (if c \<in> set cs then Some (g c) else None)"
  by (induction cs) auto

lemma column_frame_abs:
  "column (frame_abs f) c = (case column f c of Inl e \<Rightarrow> Inl e | Inr vs \<Rightarrow> Inr (map cell_abs vs))"
  by (simp add: column_def frame_abs_def map_of_map_snd split: option.splits)

text \<open>The table that line 87 or 91 builds when its columns are there.\<close>

lemma aggregate_eq:
  "aggregate f key =
     (if \<exists>c \<in> set (key # vars). map_of (columns f) c = None
      then Inl (KeyError (filter (\<lambda>c. map_of (columns f) c = None) (key # vars)))
      else Inr \<lparr>index = group_keys (the (map_of (columns f) key)),
                columns = map (\<lambda>v. (v, map (\<lambda>k. nanmean (group_vals k (the (map_of (columns f) key))
                                                      (the (map_of (columns f) v))))
                                        (group_keys (the (map_of (columns f) key)))))
                              (filter (\<lambda>v. v \<noteq> key) vars)\<rparr>)"
  by (auto simp: aggregate_def select_def Let_def groupby_mean_def column_def filter_empty_conv
        filter_map comp_def)

lemma aggregate_cong:
  assumes "\<forall>c \<in> set (key # vars). map_of (columns f) c = map_of (columns f') c"
  shows "aggregate f key = aggregate f' key"
proof -
  have "filter (\<lambda>c. map_of (columns f) c = None) (key # vars) =
        filter (\<lambda>c. map_of (columns f') c = None) (key # vars)"
    using assms by (intro filter_cong) auto
  moreover have "map (\<lambda>v. (v, map (\<lambda>k. nanmean (group_vals k (the (map_of (columns f) key))
                                                      (the (map_of (columns f) v))))
                                        (group_keys (the (map_of (columns f) key)))))
                              (filter (\<lambda>v. v \<noteq> key) vars) =
       map (\<lambda>v. (v, map (\<lambda>k. nanmean (group_vals k (the (map_of (columns f') key))
                                                      (the (map_of (columns f') v))))
                                        (group_keys (the (map_of (columns f') key)))))
                              (filter (\<lambda>v. v \<noteq> key) vars)"
    using assms by (intro map_cong) auto
  moreover have "(\<exists>c \<in> set (key # vars). map_of (columns f) c = None) =
                 (\<exists>c \<in> set (key # vars). map_of (columns f') c = None)"
    using assms by auto
  moreover have "map_of (columns f) key = map_of (columns f') key" using assms by simp
  ultimately show ?thesis unfolding aggregate_eq by simp
qed

lemma aggregate_Inr:
  assumes "aggregate f key = Inr S" and "key \<notin> set vars"
  shows "\<exists>ks. column f key = Inr ks \<and> index S = group_keys ks \<and> wf_frame S \<and>
           map fst (columns S) = vars \<and>
           (\<forall>v \<in> set vars. \<exists>vs. column f v = Inr vs \<and>
               column S v = Inr (map (\<lambda>k. nanmean (group_vals k ks vs)) (group_keys ks)))"
proof -
  from assms(1) have ex: "\<forall>c \<in> set (key # vars). map_of (columns f) c \<noteq> None"
    unfolding aggregate_eq by (auto split: if_splits)
  then obtain ks where ks: "map_of (columns f) key = Some ks" by auto
  have fl: "filter (\<lambda>v. v \<noteq> key) vars = vars" using assms(2) by (auto simp: filter_id_conv)
  from assms(1) ex ks have S: "S = \<lparr>index = group_keys ks,
                columns = map (\<lambda>v. (v, map (\<lambda>k. nanmean (group_vals k ks
                                                      (the (map_of (columns f) v))))
                                        (group_keys ks)))
                              vars\<rparr>"
    unfolding aggregate_eq fl by (auto split: if_splits)
  have "column f key = Inr ks" using ks by (simp add: column_def)
  moreover have "index S = group_keys ks" using S by simp
  moreover have "wf_frame S"
    using S vars_distinct by (simp add: wf_frame_def comp_def list_all_iff)
  moreover have "map fst (columns S) = vars" using S by (simp add: comp_def)
  moreover have "\<exists>vs. column f v = Inr vs \<and>
               column S v = Inr (map (\<lambda>k. nanmean (group_vals k ks vs)) (group_keys ks))"
    if "v \<in> set vars" for v
  proof -
    from ex that obtain vs where vs: "map_of (columns f) v = Some vs" by auto
    then show ?thesis using S that by (simp add: column_def map_of_map_key)
  qed
  ultimately show ?thesis by blast
qed

lemma zip_as_map:
  "length xs = length ys \<Longrightarrow> zip xs ys = map (\<lambda>k. (xs ! k, ys ! k)) [0..<length xs]"
  by (rule nth_equalityI) simp_all

lemma zip_count_matched:
  assumes "length sv = n" and "length tv = n"
  shows "length (filter (\<lambda>sa. cell_gt (fst sa) (snd sa)) (zip (map cell_abs sv) (map cell_abs tv)))
          = matched_exceedances sv tv n"
proof -
  have "zip (map cell_abs sv) (map cell_abs tv) =
          map (\<lambda>k. (map cell_abs sv ! k, map cell_abs tv ! k)) [0..<n]"
    using zip_as_map [of "map cell_abs sv" "map cell_abs tv"] assms by simp
  also have "\<dots> = map (\<lambda>k. (cell_abs (sv ! k), cell_abs (tv ! k))) [0..<n]"
    using assms by (intro map_cong) auto
  finally show ?thesis
    by (simp add: matched_exceedances_def filter_map comp_def)
qed

lemma matched_exceedances_le: "matched_exceedances sv tv n \<le> n"
  unfolding matched_exceedances_def using length_filter_le [of _ "[0..<n]"] by simp

lemma p_value_Inr:
  assumes "p_value S T v = Inr p"
  shows "\<exists>sv tv. column S v = Inr sv \<and> column T v = Inr tv \<and> index S = index T \<and>
           0 < nrows S \<and>
           p = Num (of_nat (length (filter (\<lambda>sa. cell_gt (fst sa) (snd sa))
                                      (zip (map cell_abs sv) (map cell_abs tv))))
                    / of_nat (nrows S))"
  using assms
  by (auto simp: p_value_def column_frame_abs Let_def split: sum.splits if_splits)

lemma p_value_cong:
  assumes "index T = index T'" and "map_of (columns T) v = map_of (columns T') v"
  shows "p_value S T v = p_value S T' v"
proof -
  have "column T v = column T' v" using assms(2) by (simp add: column_eq_iff)
  then have "column (frame_abs T) v = column (frame_abs T') v" by (simp add: column_frame_abs)
  then show ?thesis using assms(1) unfolding p_value_def by (simp split: sum.splits)
qed

lemma var_not_p_val_name:
  "length v' = 1 \<Longrightarrow> v' \<noteq> v @ ''_p_'' @ s"
  by (cases v') auto

lemma p_val_name_eq:
  "length v = 1 \<Longrightarrow> length v' = 1 \<Longrightarrow>
   v @ ''_p_'' @ s = v' @ ''_p_'' @ s' \<longleftrightarrow> v = v' \<and> s = s'"
  by (cases v; cases v') auto

lemma permuted_name_not_var: "''TLID_permuted_'' @ s \<notin> set vars"
  by (simp add: vars_def)

lemma nrows_index: "index f = index f' \<Longrightarrow> nrows f = nrows f'"
  by (simp add: nrows_def)

lemma p_val_cols_Inr:
  assumes "p_val_cols cs i S aggs = Inr aggs1" and "\<forall>v \<in> set cs. length v = 1" and "distinct cs"
  shows "index aggs1 = index aggs \<and>
         (\<forall>c. (\<forall>v \<in> set cs. c \<noteq> v @ ''_p_'' @ str (int i)) \<longrightarrow>
              map_of (columns aggs1) c = map_of (columns aggs) c) \<and>
         (\<forall>v \<in> set cs. \<exists>p. p_value S aggs v = Inr p \<and>
              map_of (columns aggs1) (v @ ''_p_'' @ str (int i)) = Some (replicate (nrows aggs) p)) \<and>
         (wf_frame aggs \<longrightarrow> wf_frame aggs1)"
  using assms
proof (induction cs arbitrary: aggs)
  case Nil
  then show ?case by simp
next
  case (Cons v cs)
  let ?name = "\<lambda>v. v @ ''_p_'' @ str (int i)"
  from Cons.prems(1) obtain p where p: "p_value S aggs v = Inr p"
    by (cases "p_value S aggs v") auto
  let ?a = "set_column aggs (?name v) (replicate (nrows aggs) p)"
  from Cons.prems(1) p have rest: "p_val_cols cs i S ?a = Inr aggs1" by simp
  have lv: "length v = 1" and lcs: "\<forall>v' \<in> set cs. length v' = 1"
    and vnotin: "v \<notin> set cs" and dcs: "distinct cs"
    using Cons.prems by simp_all
  from Cons.IH [OF rest lcs dcs] have
    i1: "index aggs1 = index ?a" and
    i2: "\<forall>c. (\<forall>v' \<in> set cs. c \<noteq> ?name v') \<longrightarrow> map_of (columns aggs1) c = map_of (columns ?a) c" and
    i3: "\<forall>v' \<in> set cs. \<exists>p'. p_value S ?a v' = Inr p' \<and>
              map_of (columns aggs1) (?name v') = Some (replicate (nrows ?a) p')" and
    i4: "wf_frame ?a \<longrightarrow> wf_frame aggs1"
    by blast+
  have ma: "map_of (columns ?a) c = (if c = ?name v then Some (replicate (nrows aggs) p)
                                       else map_of (columns aggs) c)" for c
    by (simp add: set_column_def update_conv')
  have ia: "index ?a = index aggs" by (simp add: set_column_def)
  have na: "nrows ?a = nrows aggs" by (simp add: nrows_def set_column_def)
  have a: "index aggs1 = index aggs" using i1 ia by simp
  have b: "map_of (columns aggs1) c = map_of (columns aggs) c"
    if "\<forall>v' \<in> set (v # cs). c \<noteq> ?name v'" for c
    using that i2 ma by simp
  have c: "\<exists>p'. p_value S aggs v' = Inr p' \<and>
              map_of (columns aggs1) (?name v') = Some (replicate (nrows aggs) p')"
    if v': "v' \<in> set (v # cs)" for v'
  proof (cases "v' = v")
    case True
    have "\<forall>u \<in> set cs. ?name v \<noteq> ?name u"
      using p_val_name_eq [of v _ "str (int i)" "str (int i)"] lv lcs vnotin by auto
    then have "map_of (columns aggs1) (?name v) = map_of (columns ?a) (?name v)" using i2 by simp
    then show ?thesis using True p ma by simp
  next
    case False
    then have in_cs: "v' \<in> set cs" using v' by simp
    then have "length v' = 1" using lcs by simp
    then have "v' \<noteq> ?name v" by (rule var_not_p_val_name)
    then have "map_of (columns ?a) v' = map_of (columns aggs) v'" using ma by simp
    then have eq: "p_value S ?a v' = p_value S aggs v'" using p_value_cong [OF ia] by simp
    from i3 in_cs obtain p' where "p_value S ?a v' = Inr p'"
      and "map_of (columns aggs1) (?name v') = Some (replicate (nrows ?a) p')" by blast
    then have "p_value S aggs v' = Inr p' \<and>
               map_of (columns aggs1) (?name v') = Some (replicate (nrows aggs) p')"
      using eq na by simp
    then show ?thesis by blast
  qed
  have d: "wf_frame aggs \<longrightarrow> wf_frame aggs1"
    using i4 wf_set_column [of aggs "replicate (nrows aggs) p" "?name v"] by simp
  show ?case using a b c d by blast
qed

lemma p_val_loop_Inr:
  assumes "p_val_loop ns d aggs w = (Inr aggs', w')" and "distinct ns" and "wf_frame aggs"
  shows "index aggs' = index aggs \<and> wf_frame aggs' \<and>
    (\<forall>c. (\<forall>i \<in> set ns. \<forall>v \<in> set vars. c \<noteq> v @ ''_p_'' @ str (int i)) \<longrightarrow>
         map_of (columns aggs') c = map_of (columns aggs) c) \<and>
    (\<forall>i \<in> set ns. \<forall>v \<in> set vars. \<exists>S sv tv.
         aggregate (heap w' d) (''TLID_permuted_'' @ str (int i)) = Inr S \<and>
         column S v = Inr sv \<and> column aggs v = Inr tv \<and> index S = index aggs \<and> 0 < nrows S \<and>
         column aggs' (v @ ''_p_'' @ str (int i)) =
           Inr (replicate (nrows aggs)
                  (Num (of_nat (matched_exceedances sv tv (nrows aggs)) / of_nat (nrows S)))))"
  using assms
proof (induction ns arbitrary: aggs w)
  case Nil
  then show ?case by simp
next
  case (Cons i ns)
  let ?pn = "\<lambda>i. ''TLID_permuted_'' @ str (int i)"
  let ?name = "\<lambda>v i. v @ ''_p_'' @ str (int i)"
  have inotin: "i \<notin> set ns" and dns: "distinct ns" using Cons.prems(2) by simp_all
  note wf = Cons.prems(3)
  from Cons.prems(1) obtain r w1 where ph: "permute_houses d (int i) w = (Inr r, w1)"
    by (cases "permute_houses d (int i) w"; cases "fst (permute_houses d (int i) w)") auto
  from permute_houses_Inr [OF ph] have r: "r = d" by blast
  from Cons.prems(1) ph r obtain S where S: "aggregate (heap w1 d) (?pn i) = Inr S"
    by (cases "aggregate (heap w1 d) (?pn i)") auto
  from Cons.prems(1) ph r S obtain aggs1 where cols: "p_val_cols vars i S aggs = Inr aggs1"
    by (cases "p_val_cols vars i S aggs") auto
  from Cons.prems(1) ph r S cols have rest: "p_val_loop ns d aggs1 w1 = (Inr aggs', w')" by simp
  from p_val_cols_Inr [OF cols vars_single vars_distinct] have
    c1: "index aggs1 = index aggs" and
    c2: "\<And>c. (\<forall>v \<in> set vars. c \<noteq> ?name v i) \<Longrightarrow> map_of (columns aggs1) c = map_of (columns aggs) c" and
    c3: "\<And>v. v \<in> set vars \<Longrightarrow> \<exists>p. p_value S aggs v = Inr p \<and>
              map_of (columns aggs1) (?name v i) = Some (replicate (nrows aggs) p)" and
    c4: "wf_frame aggs1"
    using wf by blast+
  from Cons.IH [OF rest dns c4] have
    h1: "index aggs' = index aggs1" and h2: "wf_frame aggs'" and
    h3: "\<And>c. (\<forall>j \<in> set ns. \<forall>v \<in> set vars. c \<noteq> ?name v j) \<Longrightarrow>
               map_of (columns aggs') c = map_of (columns aggs1) c" and
    h4: "\<And>j v. j \<in> set ns \<Longrightarrow> v \<in> set vars \<Longrightarrow> \<exists>S sv tv.
         aggregate (heap w' d) (?pn j) = Inr S \<and>
         column S v = Inr sv \<and> column aggs1 v = Inr tv \<and> index S = index aggs1 \<and> 0 < nrows S \<and>
         column aggs' (?name v j) =
           Inr (replicate (nrows aggs1)
                  (Num (of_nat (matched_exceedances sv tv (nrows aggs1)) / of_nat (nrows S))))"
    by blast+
  have n1: "nrows aggs1 = nrows aggs" using c1 by (rule nrows_index)
  have var_same: "column aggs1 v = column aggs v" if "v \<in> set vars" for v
  proof -
    have "\<forall>u \<in> set vars. v \<noteq> ?name u i"
      using var_not_p_val_name vars_single that by blast
    then show ?thesis using c2 by (simp add: column_eq_iff)
  qed
  have a: "index aggs' = index aggs" using h1 c1 by simp
  have b: "map_of (columns aggs') c = map_of (columns aggs) c"
    if "\<forall>j \<in> set (i # ns). \<forall>v \<in> set vars. c \<noteq> ?name v j" for c
    using that h3 [of c] c2 [of c] by simp
  have c: "\<exists>S sv tv.
         aggregate (heap w' d) (?pn j) = Inr S \<and>
         column S v = Inr sv \<and> column aggs v = Inr tv \<and> index S = index aggs \<and> 0 < nrows S \<and>
         column aggs' (?name v j) =
           Inr (replicate (nrows aggs)
                  (Num (of_nat (matched_exceedances sv tv (nrows aggs)) / of_nat (nrows S))))"
    if j: "j \<in> set (i # ns)" and v: "v \<in> set vars" for j v
  proof (cases "j = i")
    case True
    have keep: "aggregate (heap w' d) (?pn i) = aggregate (heap w1 d) (?pn i)"
    proof (rule aggregate_cong, rule ballI)
      fix c assume c: "c \<in> set (?pn i # vars)"
      have "\<forall>j \<in> set ns. c \<noteq> ?pn j"
      proof
        fix j assume jn: "j \<in> set ns"
        show "c \<noteq> ?pn j"
        proof (cases "c = ?pn i")
          case True
          then show ?thesis using inotin jn permuted_name_inj [of i j] by auto
        next
          case False
          then have "c \<in> set vars" using c by simp
          then show ?thesis using permuted_name_not_var [of "str (int j)"] by auto
        qed
      qed
      then have "column (heap w' d) c = column (heap w1 d) c"
        using p_val_loop_frame [OF rest] by blast
      then show "map_of (columns (heap w' d)) c = map_of (columns (heap w1 d)) c"
        by (simp add: column_eq_iff)
    qed
    from c3 [OF v] obtain p where p: "p_value S aggs v = Inr p" and
      m: "map_of (columns aggs1) (?name v i) = Some (replicate (nrows aggs) p)" by blast
    from p_value_Inr [OF p] obtain sv tv where
      sv: "column S v = Inr sv" and tv: "column aggs v = Inr tv" and
      idx: "index S = index aggs" and pos: "0 < nrows S" and
      pv: "p = Num (of_nat (length (filter (\<lambda>sa. cell_gt (fst sa) (snd sa))
                                      (zip (map cell_abs sv) (map cell_abs tv))))
                    / of_nat (nrows S))"
      by blast
    from aggregate_Inr [OF S permuted_name_not_var] have wfS: "wf_frame S" by blast
    have lsv: "length sv = nrows aggs"
      using column_length [OF wfS sv] idx by (simp add: nrows_def)
    have ltv: "length tv = nrows aggs"
      using column_length [OF wf tv] by (simp add: nrows_def)
    have pv': "p = Num (of_nat (matched_exceedances sv tv (nrows aggs)) / of_nat (nrows S))"
      using pv zip_count_matched [OF lsv ltv] by simp
    have "\<forall>j \<in> set ns. \<forall>u \<in> set vars. ?name v i \<noteq> ?name u j"
    proof (intro ballI)
      fix j u assume jn: "j \<in> set ns" and u: "u \<in> set vars"
      have "i \<noteq> j" using inotin jn by auto
      then have "str (int i) \<noteq> str (int j)" using str_int_inj by blast
      then show "?name v i \<noteq> ?name u j"
        using p_val_name_eq [of v u "str (int i)" "str (int j)"] vars_single v u by auto
    qed
    then have "map_of (columns aggs') (?name v i) = Some (replicate (nrows aggs) p)"
      using h3 [of "?name v i"] m by simp
    then have "column aggs' (?name v i) = Inr (replicate (nrows aggs) p)"
      by (simp add: column_def)
    then show ?thesis using True keep S sv tv idx pos pv' by auto
  next
    case False
    then have jn: "j \<in> set ns" using j by simp
    from h4 [OF jn v] obtain Sj sv tv where
      "aggregate (heap w' d) (?pn j) = Inr Sj" "column Sj v = Inr sv" "column aggs1 v = Inr tv"
      "index Sj = index aggs1" "0 < nrows Sj"
      "column aggs' (?name v j) =
           Inr (replicate (nrows aggs1)
                  (Num (of_nat (matched_exceedances sv tv (nrows aggs1)) / of_nat (nrows Sj))))"
      by blast
    then show ?thesis using var_same [OF v] c1 n1 by auto
  qed
  show ?case using a h2 b c by blast
qed

section \<open>The p-value columns\<close>

lemma py_range_distinct: "distinct (py_range n)"
  by (simp add: py_range_def)

lemma py_range_mem: "i \<in> set (py_range n) \<longleftrightarrow> i < nat n"
  by (simp add: py_range_def)

lemma true_segment_not_var: "''TLID'' \<notin> set vars"
  by (simp add: vars_def)

lemma compute_pvalues_Inr:
  assumes "compute_pvalues d n w = (Inr aggs, w')"
  shows "\<exists>T. aggregate (heap w d) ''TLID'' = Inr T \<and> wf_frame T \<and> map fst (columns T) = vars \<and>
              p_val_loop (py_range n) d T w = (Inr aggs, w')"
proof -
  from assms obtain T where T: "aggregate (heap w d) ''TLID'' = Inr T"
    and L: "p_val_loop (py_range n) d T w = (Inr aggs, w')"
    by (auto simp: compute_pvalues_def split: sum.splits)
  from aggregate_Inr [OF T true_segment_not_var] show ?thesis using T L by blast
qed

text \<open>
  C1, as the code has it: the iteration-\<open>i\<close> p-value column of variable \<open>v\<close> holds, in
  every row, the number of segments whose permuted mean exceeds in absolute value the true
  mean of that same segment, divided by the number of rows of the permuted aggregate. The
  comparison of line 93 is between two columns over the same index, row by row, and its
  one quotient is written to all rows.
\<close>

theorem compute_pvalues_matched_count:
  assumes "compute_pvalues data iterations w = (Inr aggs, w')"
    and "i < nat iterations" and "v \<in> set vars"
  shows "\<exists>T S tv sv.
           aggregate (heap w data) ''TLID'' = Inr T \<and>
           aggregate (heap w' data) (''TLID_permuted_'' @ str (int i)) = Inr S \<and>
           column T v = Inr tv \<and> column S v = Inr sv \<and>
           index S = index T \<and> index aggs = index T \<and> 0 < nrows S \<and>
           column aggs (v @ ''_p_'' @ str (int i)) =
             Inr (replicate (nrows T)
                    (Num (of_nat (matched_exceedances sv tv (nrows T)) / of_nat (nrows S))))"
proof -
  from compute_pvalues_Inr [OF assms(1)] obtain T where
    T: "aggregate (heap w data) ''TLID'' = Inr T" and wf: "wf_frame T" and
    L: "p_val_loop (py_range iterations) data T w = (Inr aggs, w')" by blast
  have i: "i \<in> set (py_range iterations)" using assms(2) by (simp add: py_range_mem)
  from p_val_loop_Inr [OF L py_range_distinct wf] i assms(3) T show ?thesis by blast
qed

text \<open>
  C1 as the specification states it fails on the small table: with the draw 0 the
  permuted means of A are 3, 1, 2 against the true means 1, 3, 2; the code writes 1/3 for
  every segment, while counting the permuted rows above each segment's own true value
  gives 2/3, 0 and 1/3.
\<close>

theorem compute_pvalues_not_global_count:
  "(case compute_pvalues 0 1 (example_world [0]) of
      (Inr aggs, w') \<Rightarrow>
        (case (aggregate (heap (example_world [0]) 0) ''TLID'',
               aggregate (heap w' 0) ''TLID_permuted_0'') of
           (Inr T, Inr S) \<Rightarrow>
             (case (column T ''A'', column S ''A'') of
                (Inr tv, Inr sv) \<Rightarrow>
                  index T = [Num 1, Num 2, Num 3] \<and>
                  tv = [Num 1, Num 3, Num 2] \<and> sv = [Num 3, Num 1, Num 2] \<and>
                  column aggs ''A_p_0'' = Inr [Num (1/3), Num (1/3), Num (1/3)] \<and>
                  map (spec_p_value sv tv) [0, 1, 2] = [Num (2/3), Num 0, Num (1/3)]
              | _ \<Rightarrow> False)
         | _ \<Rightarrow> False)
    | _ \<Rightarrow> False)"
  by code_simp

lemma p_val_names_mem:
  "c \<in> set (p_val_names v n) \<longleftrightarrow> (\<exists>i. i < nat n \<and> c = v @ ''_p_'' @ str (int i))"
  by (auto simp: p_val_names_def py_range_def)

lemma var_not_avg_name: "length v' = 1 \<Longrightarrow> v' \<noteq> v @ ''_avg_p''"
  by (cases v') auto

lemma avg_name_not_p_name:
  "length v = 1 \<Longrightarrow> length v' = 1 \<Longrightarrow> v @ ''_avg_p'' \<noteq> v' @ ''_p_'' @ s"
  by (cases v; cases v') auto

lemma map_of_names: "map_of xs c \<noteq> None \<longleftrightarrow> c \<in> set (map fst xs)"
  by (simp add: map_of_eq_None_iff)

text \<open>What the loop of lines 89 to 93 leaves in \<open>aggs\<close>, as far as the averaging needs it.\<close>

lemma compute_pvalues_columns:
  assumes "compute_pvalues d n w = (Inr aggs, w')"
  shows "wf_frame aggs \<and>
         (\<forall>v \<in> set vars. \<forall>c \<in> set (p_val_names v n). \<exists>q. column aggs c = Inr (replicate (nrows aggs) (Num q)) \<and> 0 \<le> q \<and> q \<le> 1) \<and>
         (\<forall>c. (\<forall>v \<in> set vars. c \<notin> set (p_val_names v n)) \<longrightarrow>
              (map_of (columns aggs) c \<noteq> None \<longleftrightarrow> c \<in> set vars))"
proof -
  from compute_pvalues_Inr [OF assms] obtain T where
    T: "aggregate (heap w d) ''TLID'' = Inr T" and wf: "wf_frame T" and
    names: "map fst (columns T) = vars" and
    L: "p_val_loop (py_range n) d T w = (Inr aggs, w')" by blast
  from p_val_loop_Inr [OF L py_range_distinct wf] have
    a: "index aggs = index T" and b: "wf_frame aggs" and
    c: "\<And>c. (\<forall>i \<in> set (py_range n). \<forall>v \<in> set vars. c \<noteq> v @ ''_p_'' @ str (int i)) \<Longrightarrow>
          map_of (columns aggs) c = map_of (columns T) c" and
    d: "\<And>i v. i \<in> set (py_range n) \<Longrightarrow> v \<in> set vars \<Longrightarrow> \<exists>S sv tv.
          index S = index T \<and> 0 < nrows S \<and>
          column aggs (v @ ''_p_'' @ str (int i)) =
            Inr (replicate (nrows T)
                  (Num (of_nat (matched_exceedances sv tv (nrows T)) / of_nat (nrows S))))"
    by blast+
  have nr: "nrows aggs = nrows T" using a by (rule nrows_index)
  have p1: "\<exists>q. column aggs c = Inr (replicate (nrows aggs) (Num q)) \<and> 0 \<le> q \<and> q \<le> 1"
    if v: "v \<in> set vars" and cm: "c \<in> set (p_val_names v n)" for v c
  proof -
    from cm obtain i where i: "i < nat n" and ceq: "c = v @ ''_p_'' @ str (int i)"
      by (auto simp: p_val_names_mem)
    from d [of i v] i v obtain S sv tv where
      idx: "index S = index T" and pos: "0 < nrows S" and
      col: "column aggs (v @ ''_p_'' @ str (int i)) =
            Inr (replicate (nrows T)
                  (Num (of_nat (matched_exceedances sv tv (nrows T)) / of_nat (nrows S))))"
      by (auto simp: py_range_mem)
    let ?q = "(of_nat (matched_exceedances sv tv (nrows T)) / of_nat (nrows S)) :: rat"
    have "nrows S = nrows T" using idx by (rule nrows_index)
    then have le: "matched_exceedances sv tv (nrows T) \<le> nrows S"
      using matched_exceedances_le [of sv tv "nrows T"] by simp
    have "0 \<le> ?q" by simp
    moreover have "?q \<le> 1" using le pos by (simp add: divide_le_eq_1)
    ultimately show ?thesis using col ceq nr by auto
  qed
  have p2: "map_of (columns aggs) c \<noteq> None \<longleftrightarrow> c \<in> set vars"
    if "\<forall>v \<in> set vars. c \<notin> set (p_val_names v n)" for c
  proof -
    have "\<forall>i \<in> set (py_range n). \<forall>v \<in> set vars. c \<noteq> v @ ''_p_'' @ str (int i)"
      using that by (auto simp: p_val_names_mem py_range_mem)
    then have "map_of (columns aggs) c = map_of (columns T) c" by (rule c)
    then show ?thesis using names map_of_names [of "columns T" c] by simp
  qed
  show ?thesis using b p1 p2 by blast
qed

text \<open>
  C5: whenever lines 87 to 93 return the per-iteration p-value table, averaging it with
  the same iteration count succeeds, \<^verbatim>\<open>find_p_vals\<close> returns the averaged table, its
  index is that of the per-iteration table, its columns are exactly the five means and one
  averaged p-value column for each variable, and no per-iteration column is left.
\<close>

theorem find_p_vals_round_trip:
  assumes "compute_pvalues data iterations w = (Inr aggs, w')"
  shows "\<exists>res. average_pvals aggs iterations = (None, res) \<and>
           find_p_vals data iterations w = (Inr res, w') \<and>
           index res = index aggs \<and> nrows res = nrows aggs \<and>
           distinct (map fst (columns res)) \<and>
           set (map fst (columns res)) = set vars \<union> (\<lambda>v. v @ ''_avg_p'') ` set vars \<and>
           (\<forall>v \<in> set vars. \<forall>i. column res (v @ ''_p_'' @ str (int i)) =
                                   Inl (KeyError [v @ ''_p_'' @ str (int i)]))"
proof -
  from compute_pvalues_columns [OF assms] have
    wf: "wf_frame aggs" and
    p1: "\<forall>v \<in> set vars. \<forall>c \<in> set (p_val_names v iterations). \<exists>q. column aggs c = Inr (replicate (nrows aggs) (Num q)) \<and> 0 \<le> q \<and> q \<le> 1" and
    p2: "\<And>c. (\<forall>v \<in> set vars. c \<notin> set (p_val_names v iterations)) \<Longrightarrow>
              (map_of (columns aggs) c \<noteq> None \<longleftrightarrow> c \<in> set vars)"
    by blast+
  have pres: "\<forall>v \<in> set vars. \<forall>c \<in> set (p_val_names v iterations). map_of (columns aggs) c \<noteq> None"
    using p1 by (auto simp: column_def split: option.splits)
  from average_loop_ok [OF vars_single vars_distinct pres] obtain res where
    a: "average_loop vars iterations aggs = (None, res)" and b: "index res = index aggs" and
    c: "\<And>v c. v \<in> set vars \<Longrightarrow> c \<in> set (p_val_names v iterations) \<Longrightarrow> map_of (columns res) c = None" and
    d: "\<And>v. v \<in> set vars \<Longrightarrow> map_of (columns res) (v @ ''_avg_p'') \<noteq> None" and
    e: "\<And>c. (\<forall>v \<in> set vars. c \<notin> set (p_val_names v iterations) \<and> c \<noteq> v @ ''_avg_p'') \<Longrightarrow>
           map_of (columns res) c = map_of (columns aggs) c" and
    f: "wf_frame res"
    using wf by auto
  have avg: "average_pvals aggs iterations = (None, res)" using a by (simp add: average_pvals_def)
  have fp: "find_p_vals data iterations w = (Inr res, w')"
    using assms avg by (simp add: find_p_vals_def)
  have dist: "distinct (map fst (columns res))" using f by (simp add: wf_frame_def)
  have mem: "c \<in> set (map fst (columns res)) \<longleftrightarrow> c \<in> set vars \<union> (\<lambda>v. v @ ''_avg_p'') ` set vars" for c
  proof (cases "\<exists>v \<in> set vars. c \<in> set (p_val_names v iterations)")
    case True
    then obtain v where v: "v \<in> set vars" and cm: "c \<in> set (p_val_names v iterations)" by blast
    then have "map_of (columns res) c = None" by (rule c)
    then have "c \<notin> set (map fst (columns res))" using map_of_names [of "columns res" c] by simp
    moreover have "c \<notin> set vars"
      using cm var_not_p_val_name vars_single by (auto simp: p_val_names_mem)
    moreover have "c \<notin> (\<lambda>v. v @ ''_avg_p'') ` set vars"
      using cm v avg_name_not_p_name vars_single by (fastforce simp: p_val_names_mem)
    ultimately show ?thesis by simp
  next
    case np: False
    show ?thesis
    proof (cases "c \<in> (\<lambda>v. v @ ''_avg_p'') ` set vars")
      case True
      then show ?thesis using d map_of_names [of "columns res" c] by auto
    next
      case False
      then have "\<forall>v \<in> set vars. c \<notin> set (p_val_names v iterations) \<and> c \<noteq> v @ ''_avg_p''"
        using np by auto
      then have "map_of (columns res) c = map_of (columns aggs) c" by (rule e)
      moreover have "map_of (columns aggs) c \<noteq> None \<longleftrightarrow> c \<in> set vars" using p2 np by simp
      ultimately show ?thesis using False map_of_names [of "columns res" c] by simp
    qed
  qed
  have gone: "column res (v @ ''_p_'' @ str (int i)) = Inl (KeyError [v @ ''_p_'' @ str (int i)])"
    if v: "v \<in> set vars" for v i
  proof -
    have "v @ ''_p_'' @ str (int i) \<notin> set vars"
      using var_not_p_val_name vars_single by blast
    moreover have "v @ ''_p_'' @ str (int i) \<notin> (\<lambda>v. v @ ''_avg_p'') ` set vars"
      using avg_name_not_p_name vars_single v by fastforce
    ultimately have "v @ ''_p_'' @ str (int i) \<notin> set (map fst (columns res))" using mem by simp
    then have "map_of (columns res) (v @ ''_p_'' @ str (int i)) = None"
      using map_of_names [of "columns res"] by blast
    then show ?thesis by (simp add: column_def)
  qed
  show ?thesis using avg fp b nrows_index [OF b] dist mem gone by blast
qed

lemma sum_list_unit:
  fixes xs :: "rat list"
  shows "\<forall>x \<in> set xs. 0 \<le> x \<and> x \<le> 1 \<Longrightarrow> 0 \<le> sum_list xs \<and> sum_list xs \<le> of_nat (length xs)"
  by (induction xs) auto

lemma nums_unit:
  "\<forall>c \<in> set cs. unit_interval c \<Longrightarrow>
   length (nums cs) = length cs \<and> (\<forall>x \<in> set (nums cs). 0 \<le> x \<and> x \<le> 1)"
  by (induction cs rule: nums.induct) auto

lemma nanmean_unit:
  assumes "cs \<noteq> []" and "\<forall>c \<in> set cs. unit_interval c"
  shows "unit_interval (nanmean cs)"
proof -
  from nums_unit [OF assms(2)] have len: "length (nums cs) = length cs"
    and u: "\<forall>x \<in> set (nums cs). 0 \<le> x \<and> x \<le> 1" by blast+
  from len assms(1) have ne: "nums cs \<noteq> []" by auto
  then have pos: "(0::rat) < of_nat (length (nums cs))" by simp
  from sum_list_unit [OF u] have "0 \<le> sum_list (nums cs)"
    and "sum_list (nums cs) \<le> of_nat (length (nums cs))" by blast+
  then show ?thesis using ne pos by (simp add: nanmean_def Let_def divide_le_eq_1)
qed

lemma mean_of_columns_unit:
  assumes "cols \<noteq> []"
    and "\<forall>col \<in> set cols. \<exists>q. col = replicate n (Num q) \<and> 0 \<le> q \<and> q \<le> 1"
  shows "list_all unit_interval (mean_of_columns cols n)"
proof -
  have "unit_interval (nanmean (map (\<lambda>col. col ! r) cols))" if r: "r < n" for r
  proof (rule nanmean_unit)
    show "map (\<lambda>col. col ! r) cols \<noteq> []" using assms(1) by simp
    show "\<forall>c \<in> set (map (\<lambda>col. col ! r) cols). unit_interval c"
    proof
      fix c assume "c \<in> set (map (\<lambda>col. col ! r) cols)"
      then obtain col where col: "col \<in> set cols" and c: "c = col ! r" by auto
      from assms(2) col obtain q where "col = replicate n (Num q)" "0 \<le> q" "q \<le> 1" by blast
      then show "unit_interval c" using c r by simp
    qed
  qed
  then show ?thesis by (simp add: mean_of_columns_def list_all_iff)
qed

lemma p_val_names_nonempty: "0 < n \<Longrightarrow> p_val_names v n \<noteq> []"
  by (simp add: p_val_names_def py_range_def)

lemma find_p_vals_averages:
  assumes "compute_pvalues d n w = (Inr aggs, w')"
  shows "\<exists>res. find_p_vals d n w = (Inr res, w') \<and>
           (\<forall>v \<in> set vars. column res (v @ ''_avg_p'') =
              Inr (mean_of_columns (the_columns aggs (p_val_names v n)) (nrows aggs)))"
proof -
  from compute_pvalues_columns [OF assms] have
    p1: "\<forall>v \<in> set vars. \<forall>c \<in> set (p_val_names v n). \<exists>q. column aggs c = Inr (replicate (nrows aggs) (Num q)) \<and> 0 \<le> q \<and> q \<le> 1"
    by blast
  have pres: "\<forall>v \<in> set vars. \<forall>c \<in> set (p_val_names v n). map_of (columns aggs) c \<noteq> None"
    using p1 by (auto simp: column_def split: option.splits)
  from average_loop_ok [OF vars_single vars_distinct pres] obtain res where
    a: "average_loop vars n aggs = (None, res)" and
    d: "\<forall>v \<in> set vars. map_of (columns res) (v @ ''_avg_p'') =
           Some (mean_of_columns (the_columns aggs (p_val_names v n)) (nrows aggs))"
    by blast
  have "find_p_vals d n w = (Inr res, w')"
    using assms a by (simp add: find_p_vals_def average_pvals_def)
  then show ?thesis using d by (auto simp: column_def)
qed

text \<open>
  C7: every per-iteration p-value that lines 87 to 93 produce lies between 0 and 1, and
  for an iteration count of at least 1 so does every averaged p-value.
\<close>

theorem p_values_in_unit_interval:
  assumes "compute_pvalues data iterations w = (Inr aggs, w')"
  shows "(\<forall>v \<in> set vars. \<forall>i. i < nat iterations \<longrightarrow>
            (\<exists>ps. column aggs (v @ ''_p_'' @ str (int i)) = Inr ps \<and> length ps = nrows aggs \<and>
                  list_all unit_interval ps)) \<and>
         (0 < iterations \<longrightarrow>
            (\<exists>res. find_p_vals data iterations w = (Inr res, w') \<and>
               (\<forall>v \<in> set vars. \<exists>ps. column res (v @ ''_avg_p'') = Inr ps \<and>
                    length ps = nrows aggs \<and> list_all unit_interval ps)))"
proof (intro conjI ballI allI impI)
  from compute_pvalues_columns [OF assms] have
    p1: "\<And>v c. v \<in> set vars \<Longrightarrow> c \<in> set (p_val_names v iterations) \<Longrightarrow>
           \<exists>q. column aggs c = Inr (replicate (nrows aggs) (Num q)) \<and> 0 \<le> q \<and> q \<le> 1"
    by blast
  { fix v i assume v: "v \<in> set vars" and i: "i < nat iterations"
    then have "v @ ''_p_'' @ str (int i) \<in> set (p_val_names v iterations)"
      by (auto simp: p_val_names_mem)
    from p1 [OF v this] obtain q where
      "column aggs (v @ ''_p_'' @ str (int i)) = Inr (replicate (nrows aggs) (Num q))"
      "0 \<le> q" "q \<le> 1" by blast
    then show "\<exists>ps. column aggs (v @ ''_p_'' @ str (int i)) = Inr ps \<and> length ps = nrows aggs \<and>
                  list_all unit_interval ps"
      by (simp add: list_all_iff) }
  assume n: "0 < iterations"
  from find_p_vals_averages [OF assms] obtain res where
    fp: "find_p_vals data iterations w = (Inr res, w')" and
    av: "\<forall>v \<in> set vars. column res (v @ ''_avg_p'') =
              Inr (mean_of_columns (the_columns aggs (p_val_names v iterations)) (nrows aggs))"
    by blast
  have "\<exists>ps. column res (v @ ''_avg_p'') = Inr ps \<and> length ps = nrows aggs \<and>
             list_all unit_interval ps" if v: "v \<in> set vars" for v
  proof -
    let ?cols = "the_columns aggs (p_val_names v iterations)"
    have ne: "?cols \<noteq> []" using p_val_names_nonempty [OF n] by (simp add: the_columns_def)
    have "\<forall>col \<in> set ?cols. \<exists>q. col = replicate (nrows aggs) (Num q) \<and> 0 \<le> q \<and> q \<le> 1"
    proof
      fix col assume "col \<in> set ?cols"
      then obtain c where c: "c \<in> set (p_val_names v iterations)"
        and col: "col = the (map_of (columns aggs) c)" by (auto simp: the_columns_def)
      from p1 [OF v c] obtain q where
        "column aggs c = Inr (replicate (nrows aggs) (Num q))" "0 \<le> q" "q \<le> 1" by blast
      then show "\<exists>q. col = replicate (nrows aggs) (Num q) \<and> 0 \<le> q \<and> q \<le> 1"
        using col by (auto simp: column_def split: option.splits)
    qed
    from mean_of_columns_unit [OF ne this] show ?thesis
      using av v by (simp add: mean_of_columns_length)
  qed
  then show "\<exists>res. find_p_vals data iterations w = (Inr res, w') \<and>
               (\<forall>v \<in> set vars. \<exists>ps. column res (v @ ''_avg_p'') = Inr ps \<and>
                    length ps = nrows aggs \<and> list_all unit_interval ps)"
    using fp by blast
qed

section \<open>An empty permuted aggregate\<close>

lemma group_vals_subset: "set (group_vals k ks vs) \<subseteq> set vs"
  by (auto simp: group_vals_def dest: set_zip_rightD)

lemma transform_permutation_set:
  assumes len: "length vs = length ks" and nonan: "NaN \<notin> set ks"
  shows "set (fst (transform_permutation ks vs g)) = set vs"
proof -
  let ?p = "fst (transform_permutation ks vs g)"
  have plen: "length ?p = length ks" by (rule transform_permutation_length)
  have grp: "set (group_vals (ks ! i) ks ?p) = set (group_vals (ks ! i) ks vs)" if "i < length ks" for i
  proof -
    have "ks ! i \<in> set ks" using that by simp
    then have "ks ! i \<in> set (group_keys ks)" using nonan by (auto simp: group_keys_mem)
    from transform_permutation_group [OF len this] show ?thesis by (metis set_mset_mset)
  qed
  show ?thesis
  proof
    show "set ?p \<subseteq> set vs"
    proof
      fix x assume "x \<in> set ?p"
      then obtain i where i: "i < length ks" and x: "x = ?p ! i"
        using plen by (metis in_set_conv_nth)
      have "x \<in> set (group_vals (ks ! i) ks ?p)" using group_vals_nth [OF plen i] x by simp
      then show "x \<in> set vs" using grp [OF i] group_vals_subset by blast
    qed
    show "set vs \<subseteq> set ?p"
    proof
      fix x assume "x \<in> set vs"
      then obtain i where i: "i < length ks" and x: "x = vs ! i"
        using len by (metis in_set_conv_nth)
      have "x \<in> set (group_vals (ks ! i) ks vs)" using group_vals_nth [OF len i] x by simp
      then show "x \<in> set ?p" using grp [OF i] group_vals_subset by blast
    qed
  qed
qed

lemma group_keys_cong: "set xs = set ys \<Longrightarrow> group_keys xs = group_keys ys"
proof -
  assume "set xs = set ys"
  then have "set (nums xs) = set (nums ys)" by (auto simp: nums_mem)
  then have "sort (remdups (nums xs)) = sort (remdups (nums ys))"
    by (metis sorted_list_of_set_sort_remdups)
  then show ?thesis by (simp add: group_keys_def)
qed

lemma str_zero: "str 0 = ''0''"
  by (simp add: str_def str_nat.simps)

lemma aggregate_exists:
  "\<forall>c \<in> set (key # vars). map_of (columns f) c \<noteq> None \<Longrightarrow> \<exists>T. aggregate f key = Inr T"
  unfolding aggregate_eq by auto

text \<open>
  C4, as the code has it: when the permuted aggregate of the first iteration has no row,
  line 93 yields no value, and the loop and \<^verbatim>\<open>find_p_vals\<close> raise: ZeroDivisionError
  when the true aggregate has no row either, which is so whenever no block key is missing,
  and the ValueError of the comparison of two columns over different indexes otherwise.
\<close>

theorem find_p_vals_zero_division:
  assumes wf: "wf_frame (heap w data)"
    and blk: "column (heap w data) ''BLKID'' = Inr blk"
    and tlid: "column (heap w data) ''TLID'' = Inr tlid"
    and ph: "permute_houses data 0 w = (r, w1)"
    and S: "aggregate (heap w1 data) ''TLID_permuted_0'' = Inr S" and zero: "nrows S = 0"
    and n: "0 < iterations"
  shows "\<exists>T. aggregate (heap w data) ''TLID'' = Inr T \<and>
           fst (compute_pvalues data iterations w) =
             Inl (if index T = index S then ZeroDivisionError else ValueError) \<and>
           fst (find_p_vals data iterations w) =
             Inl (if index T = index S then ZeroDivisionError else ValueError) \<and>
           (NaN \<notin> set blk \<longrightarrow> index T = index S) \<and>
           (\<forall>T' col. \<exists>e. p_value S T' col = Inl e)"
proof -
  have never: "\<exists>e. p_value S T' col = Inl e" for T' col
    using zero by (simp add: p_value_def Let_def split: sum.splits)
  let ?p = "fst (transform_permutation blk tlid (np_random w))"
  let ?e = "\<lambda>T. if index T = index S then ZeroDivisionError else ValueError"
  have len: "length tlid = length blk"
    using column_length [OF wf blk] column_length [OF wf tlid] by simp
  from ph permute_houses_result [OF blk tlid, of 0] have r: "r = Inr data" and
    h1: "heap w1 data = set_column (heap w data) ''TLID_permuted_0'' ?p"
    by (auto simp: str_zero)
  have pn: "''TLID_permuted_0'' \<notin> set vars" by (simp add: vars_def)
  from aggregate_Inr [OF S pn] obtain ks where
    ks: "column (heap w1 data) ''TLID_permuted_0'' = Inr ks" and iS: "index S = group_keys ks" and
    vS: "\<And>v. v \<in> set vars \<Longrightarrow> \<exists>vs. column (heap w1 data) v = Inr vs \<and> (\<exists>sv. column S v = Inr sv)"
    by blast
  have ksp: "ks = ?p" using ks h1 by (simp add: column_set_column_same)
  have vw: "map_of (columns (heap w data)) c \<noteq> None" if "c \<in> set (''TLID'' # vars)" for c
  proof (cases "c = ''TLID''")
    case True
    then show ?thesis using tlid by (auto simp: column_def split: option.splits)
  next
    case False
    then have c: "c \<in> set vars" using that by simp
    then have "c \<noteq> ''TLID_permuted_0''" using pn by auto
    then have "column (heap w1 data) c = column (heap w data) c"
      using h1 by (simp add: column_set_column_other)
    then show ?thesis using vS [OF c] by (auto simp: column_def split: option.splits)
  qed
  then obtain T where T: "aggregate (heap w data) ''TLID'' = Inr T"
    using aggregate_exists [of "''TLID''" "heap w data"] by blast
  from aggregate_Inr [OF T true_segment_not_var] tlid have
    iT: "index T = group_keys tlid" and
    vT: "\<And>v. v \<in> set vars \<Longrightarrow> \<exists>tv. column T v = Inr tv"
    by auto
  have idx: "index T = index S" if nonan: "NaN \<notin> set blk"
  proof -
    have "set ?p = set tlid" using transform_permutation_set [OF len nonan] .
    then have "group_keys ?p = group_keys tlid" by (rule group_keys_cong)
    then show ?thesis by (simp add: iS iT ksp)
  qed
  have A: "''A'' \<in> set vars" by (simp add: vars_def)
  from vS [OF A] obtain sv where sv: "column S ''A'' = Inr sv" by blast
  from vT [OF A] obtain tv where tv: "column T ''A'' = Inr tv" by blast
  have pv: "p_value S T ''A'' = Inl (?e T)"
    using sv tv zero by (auto simp: p_value_def column_frame_abs)
  then have cols: "p_val_cols vars 0 S T = Inl (?e T)" by (simp add: vars_def)
  from n have "0 < nat iterations" by simp
  then have "[0..<nat iterations] = 0 # [Suc 0..<nat iterations]" by (rule upt_conv_Cons)
  then obtain rest where range: "py_range iterations = 0 # rest" by (simp add: py_range_def)
  have "p_val_loop (py_range iterations) data T w = (Inl (?e T), w1)"
    using ph r S cols unfolding range by (simp add: str_zero)
  then have c: "compute_pvalues data iterations w = (Inl (?e T), w1)"
    using T by (simp add: compute_pvalues_def)
  then have f: "find_p_vals data iterations w = (Inl (?e T), w1)" by (simp add: find_p_vals_def)
  show ?thesis using T c f idx never by auto
qed

theorem find_p_vals_zero_division_witness:
  "wf_frame (heap (empty_world []) 0) \<and>
   column (heap (empty_world []) 0) ''BLKID'' = Inr [] \<and>
   column (heap (empty_world []) 0) ''TLID'' = Inr [] \<and>
   (\<exists>S. aggregate (heap (snd (permute_houses 0 0 (empty_world []))) 0) ''TLID_permuted_0'' = Inr S \<and>
        nrows S = 0) \<and>
   fst (compute_pvalues 0 3 (empty_world [])) = Inl ZeroDivisionError \<and>
   fst (find_p_vals 0 3 (empty_world [])) = Inl ZeroDivisionError"
proof -
  let ?w = "empty_world []"
  let ?S = "\<lparr>index = [], columns = [(''A'', []), (''B'', []), (''C'', []), (''D'', []), (''E'', [])]\<rparr>"
  have wf: "wf_frame (heap ?w 0)" by code_simp
  have blk: "column (heap ?w 0) ''BLKID'' = Inr []" by code_simp
  have tlid: "column (heap ?w 0) ''TLID'' = Inr []" by code_simp
  have ph: "permute_houses 0 0 ?w = (fst (permute_houses 0 0 ?w), snd (permute_houses 0 0 ?w))"
    by simp
  have S: "aggregate (heap (snd (permute_houses 0 0 ?w)) 0) ''TLID_permuted_0'' = Inr ?S"
    by code_simp
  have zero: "nrows ?S = 0" by (simp add: nrows_def)
  have n: "(0::int) < 3" by simp
  from find_p_vals_zero_division [OF wf blk tlid ph S zero n] wf blk tlid S zero
  show ?thesis by auto
qed

text \<open>
  C4 as the specification states it fails when block keys are missing: the two households
  then belong to no block group, the permuted aggregate has no row while the true
  aggregate has two, and the comparison of line 93 raises ValueError before the division.
\<close>

theorem find_p_vals_zero_rows_value_error:
  "wf_frame (heap (missing_block_world []) 0) \<and>
   aggregate (heap (snd (permute_houses 0 0 (missing_block_world []))) 0) ''TLID_permuted_0'' =
     Inr \<lparr>index = [], columns = [(''A'', []), (''B'', []), (''C'', []), (''D'', []), (''E'', [])]\<rparr> \<and>
   nrows \<lparr>index = [], columns = [(''A'', []), (''B'', []), (''C'', []), (''D'', []), (''E'', [])]\<rparr> = 0 \<and>
   fst (compute_pvalues 0 1 (missing_block_world [])) = Inl ValueError \<and>
   fst (find_p_vals 0 1 (missing_block_world [])) = Inl ValueError"
  by code_simp

section \<open>Runs on the small table\<close>

lemma str_one: "str 1 = ''1''"
  by (simp add: str_def str_nat.simps)

theorem compute_pvalues_matched_count_witness:
  "''A'' \<in> set vars \<and>
   (\<exists>aggs w' T S tv sv.
      compute_pvalues 0 1 (example_world [0]) = (Inr aggs, w') \<and>
      aggregate (heap (example_world [0]) 0) ''TLID'' = Inr T \<and>
      aggregate (heap w' 0) ''TLID_permuted_0'' = Inr S \<and>
      column T ''A'' = Inr tv \<and> column S ''A'' = Inr sv \<and>
      index S = index T \<and> index aggs = index T \<and>
      column aggs ''A_p_0'' =
        Inr (replicate (nrows T)
               (Num (of_nat (matched_exceedances sv tv (nrows T)) / of_nat (nrows S)))))"
proof -
  let ?w = "example_world [0]"
  have A: "''A'' \<in> set vars" by (simp add: vars_def)
  have "\<not> isl (fst (compute_pvalues 0 1 ?w))" by code_simp
  then obtain aggs where run: "compute_pvalues 0 1 ?w = (Inr aggs, snd (compute_pvalues 0 1 ?w))"
    by (cases "compute_pvalues 0 1 ?w"; cases "fst (compute_pvalues 0 1 ?w)") auto
  have i: "0 < nat 1" by simp
  from compute_pvalues_matched_count [OF run i A] show ?thesis
    using A run by (simp add: str_zero) blast
qed

theorem find_p_vals_round_trip_witness:
  "\<exists>aggs w' res.
      compute_pvalues 0 2 (example_world [0, 1]) = (Inr aggs, w') \<and>
      find_p_vals 0 2 (example_world [0, 1]) = (Inr res, w') \<and>
      index res = index aggs \<and> distinct (map fst (columns res)) \<and>
      set (map fst (columns res)) = set vars \<union> (\<lambda>v. v @ ''_avg_p'') ` set vars \<and>
      column res ''A_p_1'' = Inl (KeyError [''A_p_1''])"
proof -
  let ?w = "example_world [0, 1]"
  have A: "''A'' \<in> set vars" by (simp add: vars_def)
  have "\<not> isl (fst (compute_pvalues 0 2 ?w))" by code_simp
  then obtain aggs where run: "compute_pvalues 0 2 ?w = (Inr aggs, snd (compute_pvalues 0 2 ?w))"
    by (cases "compute_pvalues 0 2 ?w"; cases "fst (compute_pvalues 0 2 ?w)") auto
  from find_p_vals_round_trip [OF run] obtain res where
    a: "find_p_vals 0 2 ?w = (Inr res, snd (compute_pvalues 0 2 ?w))" and
    b: "index res = index aggs" "distinct (map fst (columns res))"
       "set (map fst (columns res)) = set vars \<union> (\<lambda>v. v @ ''_avg_p'') ` set vars" and
    c: "\<forall>v \<in> set vars. \<forall>i. column res (v @ ''_p_'' @ str (int i)) =
                                   Inl (KeyError [v @ ''_p_'' @ str (int i)])"
    by blast
  from bspec [OF c A] have "column res (''A'' @ ''_p_'' @ str (int 1)) =
                                   Inl (KeyError [''A'' @ ''_p_'' @ str (int 1)])" by blast
  then have d: "column res ''A_p_1'' = Inl (KeyError [''A_p_1''])" by (simp add: str_one)
  show ?thesis using run a b d by blast
qed

theorem p_values_in_unit_interval_witness:
  "\<exists>aggs w'.
      compute_pvalues 0 2 (example_world [0, 1]) = (Inr aggs, w') \<and>
      (\<exists>ps. column aggs ''A_p_1'' = Inr ps \<and> list_all unit_interval ps) \<and>
      (\<exists>res. find_p_vals 0 2 (example_world [0, 1]) = (Inr res, w') \<and>
         (\<exists>ps. column res ''A_avg_p'' = Inr ps \<and> length ps = 3 \<and> list_all unit_interval ps))"
proof -
  let ?w = "example_world [0, 1]"
  have A: "''A'' \<in> set vars" by (simp add: vars_def)
  have "\<not> isl (fst (compute_pvalues 0 2 ?w))" by code_simp
  then obtain aggs where run: "compute_pvalues 0 2 ?w = (Inr aggs, snd (compute_pvalues 0 2 ?w))"
    by (cases "compute_pvalues 0 2 ?w"; cases "fst (compute_pvalues 0 2 ?w)") auto
  have rows: "nrows (projr (fst (compute_pvalues 0 2 ?w))) = 3" by code_simp
  then have rows': "nrows aggs = 3" using run by (metis fst_conv sum.sel(2))
  from p_values_in_unit_interval [OF run] have
    a: "\<forall>v \<in> set vars. \<forall>i. i < nat 2 \<longrightarrow>
            (\<exists>ps. column aggs (v @ ''_p_'' @ str (int i)) = Inr ps \<and> length ps = nrows aggs \<and>
                  list_all unit_interval ps)" and
    b: "\<exists>res. find_p_vals 0 2 ?w = (Inr res, snd (compute_pvalues 0 2 ?w)) \<and>
               (\<forall>v \<in> set vars. \<exists>ps. column res (v @ ''_avg_p'') = Inr ps \<and>
                    length ps = nrows aggs \<and> list_all unit_interval ps)"
    by simp_all
  from bspec [OF a A] have "1 < nat 2 \<longrightarrow>
            (\<exists>ps. column aggs (''A'' @ ''_p_'' @ str (int 1)) = Inr ps \<and> length ps = nrows aggs \<and>
                  list_all unit_interval ps)" by blast
  then have a1: "\<exists>ps. column aggs ''A_p_1'' = Inr ps \<and> list_all unit_interval ps"
    by (auto simp: str_one)
  from b obtain res where fp: "find_p_vals 0 2 ?w = (Inr res, snd (compute_pvalues 0 2 ?w))"
    and r: "\<forall>v \<in> set vars. \<exists>ps. column res (v @ ''_avg_p'') = Inr ps \<and>
                    length ps = nrows aggs \<and> list_all unit_interval ps" by blast
  from bspec [OF r A] rows' have
    "\<exists>ps. column res ''A_avg_p'' = Inr ps \<and> length ps = 3 \<and> list_all unit_interval ps" by simp
  then show ?thesis using run a1 fp by blast
qed

section \<open>Runs that return\<close>

lemma p_value_succeeds:
  assumes "column S v = Inr sv" and "column T v = Inr tv" and "index S = index T" and "0 < nrows S"
  shows "\<exists>p. p_value S T v = Inr p"
  using assms by (simp add: p_value_def column_frame_abs Let_def)

lemma p_val_cols_succeeds:
  assumes "\<forall>v \<in> set cs. length v = 1"
    and "\<forall>v \<in> set cs. \<exists>sv. column S v = Inr sv"
    and "\<forall>v \<in> set cs. \<exists>tv. column aggs v = Inr tv"
    and "index S = index aggs" and "0 < nrows S"
  shows "\<exists>aggs1. p_val_cols cs i S aggs = Inr aggs1"
  using assms
proof (induction cs arbitrary: aggs)
  case Nil
  then show ?case by simp
next
  case (Cons v cs)
  from Cons.prems obtain sv tv where "column S v = Inr sv" "column aggs v = Inr tv" by auto
  from p_value_succeeds [OF this Cons.prems(4,5)] obtain p where p: "p_value S aggs v = Inr p" ..
  let ?a = "set_column aggs (v @ ''_p_'' @ str (int i)) (replicate (nrows aggs) p)"
  have "\<forall>u \<in> set cs. \<exists>tv. column ?a u = Inr tv"
  proof
    fix u assume u: "u \<in> set cs"
    then have "length u = 1" using Cons.prems(1) by simp
    then have "u \<noteq> v @ ''_p_'' @ str (int i)" by (rule var_not_p_val_name)
    then show "\<exists>tv. column ?a u = Inr tv"
      using Cons.prems(3) u by (simp add: column_set_column_other)
  qed
  moreover have "index S = index ?a" using Cons.prems(4) by (simp add: index_set_column)
  ultimately obtain aggs1 where "p_val_cols cs i S ?a = Inr aggs1"
    using Cons.IH [of ?a] Cons.prems(1,2,5) by auto
  then show ?case using p by simp
qed

lemma group_keys_nonempty: "Num x \<in> set ks \<Longrightarrow> group_keys ks \<noteq> []"
proof -
  assume "Num x \<in> set ks"
  then have "x \<in> set (sort (remdups (nums ks)))" by (simp add: nums_mem)
  then show ?thesis unfolding group_keys_def by (metis empty_iff list.map_disc_iff list.set(1))
qed

text \<open>
  The loop of lines 89 to 93 runs to its end on a well-formed table that has the columns
  BLKID, TLID and A to E, no missing block key and at least one segment key.
\<close>

lemma p_val_loop_succeeds:
  assumes "wf_frame (heap w d)"
    and "column (heap w d) ''BLKID'' = Inr blk" and "NaN \<notin> set blk"
    and "column (heap w d) ''TLID'' = Inr tlid" and "Num x \<in> set tlid"
    and "\<forall>v \<in> set vars. \<exists>vs. column (heap w d) v = Inr vs"
    and "index aggs = group_keys tlid"
    and "\<forall>v \<in> set vars. \<exists>tv. column aggs v = Inr tv"
  shows "\<exists>aggs' w'. p_val_loop ns d aggs w = (Inr aggs', w')"
  using assms
proof (induction ns arbitrary: aggs w)
  case Nil
  then show ?case by simp
next
  case (Cons i ns)
  let ?pn = "''TLID_permuted_'' @ str (int i)"
  let ?p = "fst (transform_permutation blk tlid (np_random w))"
  note wf = Cons.prems(1) and blk = Cons.prems(2) and nonan = Cons.prems(3)
    and tlid = Cons.prems(4) and some = Cons.prems(5) and vs = Cons.prems(6)
    and idx = Cons.prems(7) and av = Cons.prems(8)
  have len: "length tlid = length blk"
    using column_length [OF wf blk] column_length [OF wf tlid] by simp
  have plen: "length ?p = nrows (heap w d)"
    using transform_permutation_length [of blk tlid] column_length [OF wf blk]
    by (simp add: nrows_def)
  obtain w1 where ph: "permute_houses d (int i) w = (Inr d, w1)"
    and h1: "heap w1 d = set_column (heap w d) ?pn ?p"
    using permute_houses_result [OF blk tlid, of "int i"] by simp
  have wf1: "wf_frame (heap w1 d)" using h1 wf_set_column [OF wf plen] by simp
  have blk1: "column (heap w1 d) ''BLKID'' = Inr blk"
    using h1 blk by (simp add: column_set_column_other)
  have tlid1: "column (heap w1 d) ''TLID'' = Inr tlid"
    using h1 tlid by (simp add: column_set_column_other)
  have vs1: "\<forall>v \<in> set vars. \<exists>vs. column (heap w1 d) v = Inr vs"
  proof
    fix v assume v: "v \<in> set vars"
    then have "v \<noteq> ?pn" using permuted_name_not_var by blast
    then show "\<exists>vs. column (heap w1 d) v = Inr vs"
      using h1 vs v by (simp add: column_set_column_other)
  qed
  have pcol: "column (heap w1 d) ?pn = Inr ?p" using h1 by (simp add: column_set_column_same)
  have "\<forall>c \<in> set (?pn # vars). map_of (columns (heap w1 d)) c \<noteq> None"
    using pcol vs1 by (auto simp: column_def split: option.splits)
  from aggregate_exists [OF this] obtain S where S: "aggregate (heap w1 d) ?pn = Inr S" ..
  from aggregate_Inr [OF S permuted_name_not_var] pcol have
    iS: "index S = group_keys ?p" and
    sv: "\<forall>v \<in> set vars. \<exists>sv. column S v = Inr sv"
    by auto
  have "set ?p = set tlid" using transform_permutation_set [OF len nonan] .
  then have "group_keys ?p = group_keys tlid" by (rule group_keys_cong)
  then have idxS: "index S = index aggs" using iS idx by simp
  have pos: "0 < nrows S"
    using group_keys_nonempty [OF some] idxS idx by (simp add: nrows_def)
  from p_val_cols_succeeds [OF vars_single sv av idxS pos]
  obtain aggs1 where cols: "p_val_cols vars i S aggs = Inr aggs1" ..
  from p_val_cols_Inr [OF cols vars_single vars_distinct] have
    c1: "index aggs1 = index aggs" and
    c2: "\<And>c. (\<forall>v \<in> set vars. c \<noteq> v @ ''_p_'' @ str (int i)) \<Longrightarrow>
           map_of (columns aggs1) c = map_of (columns aggs) c"
    by blast+
  have av1: "\<forall>v \<in> set vars. \<exists>tv. column aggs1 v = Inr tv"
  proof
    fix v assume v: "v \<in> set vars"
    have "\<forall>u \<in> set vars. v \<noteq> u @ ''_p_'' @ str (int i)"
      using var_not_p_val_name vars_single v by blast
    then have "column aggs1 v = column aggs v" using c2 by (simp add: column_eq_iff)
    then show "\<exists>tv. column aggs1 v = Inr tv" using av v by simp
  qed
  have idx1: "index aggs1 = group_keys tlid" using c1 idx by simp
  from Cons.IH [OF wf1 blk1 nonan tlid1 some vs1 idx1 av1]
  obtain aggs' w' where "p_val_loop ns d aggs1 w1 = (Inr aggs', w')" by blast
  then show ?case using ph S cols by simp
qed

lemma compute_pvalues_succeeds:
  assumes "wf_frame (heap w d)"
    and "column (heap w d) ''BLKID'' = Inr blk" and "NaN \<notin> set blk"
    and "column (heap w d) ''TLID'' = Inr tlid" and "Num x \<in> set tlid"
    and "\<forall>v \<in> set vars. \<exists>vs. column (heap w d) v = Inr vs"
  shows "\<exists>aggs res w'. compute_pvalues d n w = (Inr aggs, w') \<and>
                         find_p_vals d n w = (Inr res, w')"
proof -
  have "\<forall>c \<in> set (''TLID'' # vars). map_of (columns (heap w d)) c \<noteq> None"
    using assms(4,6) by (auto simp: column_def split: option.splits)
  from aggregate_exists [OF this] obtain T where T: "aggregate (heap w d) ''TLID'' = Inr T" ..
  from aggregate_Inr [OF T true_segment_not_var] assms(4) have
    "index T = group_keys tlid" and "\<forall>v \<in> set vars. \<exists>tv. column T v = Inr tv" by auto
  from p_val_loop_succeeds [OF assms this, of "py_range n"] obtain aggs w' where
    "p_val_loop (py_range n) d T w = (Inr aggs, w')" by blast
  then have c: "compute_pvalues d n w = (Inr aggs, w')" using T by (simp add: compute_pvalues_def)
  from find_p_vals_averages [OF c] show ?thesis using c by blast
qed

section \<open>Averaging a table with an absent column\<close>

lemma average_loop_append:
  "average_loop (xs @ ys) n f =
     (case average_loop xs n f of
        (Some e, f1) \<Rightarrow> (Some e, f1)
      | (None, f1) \<Rightarrow> average_loop ys n f1)"
  by (induction xs arbitrary: f) (auto split: prod.splits option.splits)

text \<open>
  The loop stops at the first variable with an absent column; the table is then what
  averaging the variables before it has made of it.
\<close>

lemma average_loop_stops:
  assumes single: "\<forall>v \<in> set cols. length v = 1" and dist: "distinct cols"
    and miss: "\<exists>v \<in> set cols. \<exists>c \<in> set (p_val_names v n). map_of (columns f) c = None"
  shows "\<exists>before u after f'.
           cols = before @ u # after \<and>
           (\<forall>d \<in> set before. \<forall>c \<in> set (p_val_names d n). map_of (columns f) c \<noteq> None) \<and>
           (\<exists>c \<in> set (p_val_names u n). map_of (columns f) c = None) \<and>
           average_loop before n f = (None, f') \<and>
           average_loop cols n f =
             (Some (KeyError (filter (\<lambda>c. map_of (columns f) c = None) (p_val_names u n))), f')"
proof -
  from split_list_first_prop [OF miss] obtain before u after where
    cols: "cols = before @ u # after" and
    u: "\<exists>c \<in> set (p_val_names u n). map_of (columns f) c = None" and
    pres: "\<forall>d \<in> set before. \<not> (\<exists>c \<in> set (p_val_names d n). map_of (columns f) c = None)"
    by blast
  have sb: "\<forall>v \<in> set before. length v = 1" and db: "distinct before"
    and lu: "length u = 1" and unotin: "u \<notin> set before"
    using single dist cols by auto
  have pres': "\<forall>d \<in> set before. \<forall>c \<in> set (p_val_names d n). map_of (columns f) c \<noteq> None"
    using pres by auto
  from average_loop_ok [OF sb db pres'] obtain f' where
    a: "average_loop before n f = (None, f')" and
    e: "\<And>c. (\<forall>v \<in> set before. c \<notin> set (p_val_names v n) \<and> c \<noteq> v @ ''_avg_p'') \<Longrightarrow>
           map_of (columns f') c = map_of (columns f) c"
    by blast
  have same: "map_of (columns f') c = map_of (columns f) c" if c: "c \<in> set (p_val_names u n)" for c
  proof (rule e, rule ballI)
    fix v assume v: "v \<in> set before"
    then have "v \<noteq> u" using unotin by auto
    then have "c \<notin> set (p_val_names v n)"
      using p_val_names_disjoint [of u v c n] lu sb v c by auto
    moreover have "c \<noteq> v @ ''_avg_p''"
      using avg_name_not_p_val_name [of v u n] lu sb v c by auto
    ultimately show "c \<notin> set (p_val_names v n) \<and> c \<noteq> v @ ''_avg_p''" by simp
  qed
  then have u': "\<exists>c \<in> set (p_val_names u n). map_of (columns f') c = None" using u by auto
  have flt: "filter (\<lambda>c. map_of (columns f') c = None) (p_val_names u n) =
             filter (\<lambda>c. map_of (columns f) c = None) (p_val_names u n)"
    using same by (intro filter_cong) auto
  have "average_loop (u # after) n f' =
          (Some (KeyError (filter (\<lambda>c. map_of (columns f) c = None) (p_val_names u n))), f')"
    using average_col_fail [OF u'] flt by simp
  then have "average_loop cols n f =
          (Some (KeyError (filter (\<lambda>c. map_of (columns f) c = None) (p_val_names u n))), f')"
    unfolding cols average_loop_append using a by simp
  then show ?thesis using cols pres' u a by blast
qed

lemma column_absent: "column f c = Inl (KeyError [c]) \<longleftrightarrow> map_of (columns f) c = None"
  by (auto simp: column_def split: option.splits)

text \<open>
  C8, as the code has it: when a per-iteration column expected for the iteration count is
  absent, \<^verbatim>\<open>average_pvals\<close> raises KeyError naming the absent columns of the first
  variable that lacks one, and no variable is averaged over a part of its columns. The
  table is changed in place up to that point: each variable before that one has all its
  columns, has its averaged column added and its per-iteration columns dropped; the index
  and every other column, those of the failing variable and of the later ones among them,
  are as they were.
\<close>

theorem average_pvals_missing_column:
  assumes "v \<in> set vars" and "c \<in> set (p_val_names v n)"
    and "column pval_df c = Inl (KeyError [c])"
  shows "\<exists>before u after ms f'.
           vars = before @ u # after \<and>
           average_pvals pval_df n = (Some (KeyError ms), f') \<and>
           ms = filter (\<lambda>c. column pval_df c = Inl (KeyError [c])) (p_val_names u n) \<and>
           ms \<noteq> [] \<and>
           average_loop before n pval_df = (None, f') \<and>
           index f' = index pval_df \<and>
           (\<forall>d \<in> set before.
              column f' (d @ ''_avg_p'') =
                Inr (mean_of_columns (the_columns pval_df (p_val_names d n)) (nrows pval_df)) \<and>
              (\<forall>c \<in> set (p_val_names d n).
                 (\<exists>vs. column pval_df c = Inr vs) \<and> column f' c = Inl (KeyError [c]))) \<and>
           (\<forall>c. (\<forall>d \<in> set before. c \<notin> set (p_val_names d n) \<and> c \<noteq> d @ ''_avg_p'') \<longrightarrow>
                column f' c = column pval_df c)"
proof -
  have "map_of (columns pval_df) c = None" using assms(3) by (simp add: column_absent)
  then have miss: "\<exists>v \<in> set vars. \<exists>c \<in> set (p_val_names v n). map_of (columns pval_df) c = None"
    using assms(1,2) by blast
  from average_loop_stops [OF vars_single vars_distinct miss] obtain before u after f' where
    split: "vars = before @ u # after" and
    pres: "\<forall>d \<in> set before. \<forall>c \<in> set (p_val_names d n). map_of (columns pval_df) c \<noteq> None" and
    u: "\<exists>c \<in> set (p_val_names u n). map_of (columns pval_df) c = None" and
    pre: "average_loop before n pval_df = (None, f')" and
    run: "average_loop vars n pval_df =
            (Some (KeyError (filter (\<lambda>c. map_of (columns pval_df) c = None) (p_val_names u n))), f')"
    by blast
  let ?ms = "filter (\<lambda>c. column pval_df c = Inl (KeyError [c])) (p_val_names u n)"
  have ms: "?ms = filter (\<lambda>c. map_of (columns pval_df) c = None) (p_val_names u n)"
    by (simp add: column_absent)
  have ne: "?ms \<noteq> []" using u by (simp add: ms filter_empty_conv)
  have "\<forall>v \<in> set (before @ u # after). length v = 1" and "distinct (before @ u # after)"
    using vars_single vars_distinct unfolding split by blast+
  then have sb: "\<forall>v \<in> set before. length v = 1" and db: "distinct before" by simp_all
  from average_loop_ok [OF sb db pres] pre have
    idx: "index f' = index pval_df" and
    gone: "\<forall>d \<in> set before. \<forall>c \<in> set (p_val_names d n). map_of (columns f') c = None" and
    avg: "\<forall>d \<in> set before. map_of (columns f') (d @ ''_avg_p'') =
            Some (mean_of_columns (the_columns pval_df (p_val_names d n)) (nrows pval_df))" and
    rest: "\<forall>c. (\<forall>d \<in> set before. c \<notin> set (p_val_names d n) \<and> c \<noteq> d @ ''_avg_p'') \<longrightarrow>
            map_of (columns f') c = map_of (columns pval_df) c"
    by auto
  have 1: "average_pvals pval_df n = (Some (KeyError ?ms), f')"
    using run ms by (simp add: average_pvals_def)
  have 2: "\<forall>d \<in> set before.
              column f' (d @ ''_avg_p'') =
                Inr (mean_of_columns (the_columns pval_df (p_val_names d n)) (nrows pval_df)) \<and>
              (\<forall>c \<in> set (p_val_names d n).
                 (\<exists>vs. column pval_df c = Inr vs) \<and> column f' c = Inl (KeyError [c]))"
    using avg gone pres by (simp add: column_Some column_absent column_present)
  have 3: "\<forall>c. (\<forall>d \<in> set before. c \<notin> set (p_val_names d n) \<and> c \<noteq> d @ ''_avg_p'') \<longrightarrow>
                column f' c = column pval_df c"
    using rest by (simp add: column_eq_iff)
  show ?thesis using split 1 ne pre idx 2 3 by blast
qed

theorem average_pvals_missing_column_witness:
  "''C'' \<in> set vars \<and> ''C_p_1'' \<in> set (p_val_names ''C'' 2) \<and>
   column example_pvals_short ''C_p_1'' = Inl (KeyError [''C_p_1'']) \<and>
   (\<exists>before u after ms f'.
      vars = before @ u # after \<and>
      average_pvals example_pvals_short 2 = (Some (KeyError ms), f') \<and> ms \<noteq> [] \<and>
      average_loop before 2 example_pvals_short = (None, f') \<and>
      index f' = [Num 1, Num 2])"
proof -
  have a: "''C'' \<in> set vars" by (simp add: vars_def)
  have b: "''C_p_1'' \<in> set (p_val_names ''C'' 2)" by code_simp
  have c: "column example_pvals_short ''C_p_1'' = Inl (KeyError [''C_p_1''])" by code_simp
  have d: "index example_pvals_short = [Num 1, Num 2]" by code_simp
  from average_pvals_missing_column [OF a b c] obtain before u after ms f' where
    "vars = before @ u # after"
    "average_pvals example_pvals_short 2 = (Some (KeyError ms), f')" "ms \<noteq> []"
    "average_loop before 2 example_pvals_short = (None, f')"
    "index f' = index example_pvals_short"
    by blast
  then show ?thesis using a b c d by auto
qed

text \<open>
  C8 as the specification states it fails on the table without C_p_1: the call raises
  KeyError for C_p_1, and the caller's table has by then lost A_p_0 and B_p_1 and gained
  A_avg_p and B_avg_p, a partial aggregation.
\<close>

theorem average_pvals_partial_in_place:
  "column example_pvals_short ''A_p_0'' = Inr [Num (1/2), Num (1/2)] \<and>
   column example_pvals_short ''A_avg_p'' = Inl (KeyError [''A_avg_p'']) \<and>
   (case average_pvals example_pvals_short 2 of
      (e, f') \<Rightarrow>
        e = Some (KeyError [''C_p_1'']) \<and>
        column f' ''A_avg_p'' = Inr [Num (1/4), Num (1/4)] \<and>
        column f' ''A_p_0'' = Inl (KeyError [''A_p_0'']) \<and>
        column f' ''B_avg_p'' = Inr [Num (1/4), Num (1/4)] \<and>
        column f' ''B_p_1'' = Inl (KeyError [''B_p_1'']) \<and>
        column f' ''C_p_0'' = Inr [Num 1, Num 1] \<and>
        column f' ''C_avg_p'' = Inl (KeyError [''C_avg_p'']))"
  by code_simp

end
